theory Spec2Isabelle
  imports Complex_Main "HOL-Library.AList"
begin

section \<open>Numbers, errors and dictionaries\<close>

text \<open>
  A cost is a Python number as the search code produces it: an unbounded integer, or the
  float \<^verbatim>\<open>np.inf\<close>. Adding anything to \<^verbatim>\<open>np.inf\<close> gives \<^verbatim>\<open>np.inf\<close>. The integers are
  those Python can convert to a float, of absolute value below \<open>2 ^ 1024\<close>: for a larger
  one \<^verbatim>\<open>int + np.inf\<close> raises \<^verbatim>\<open>OverflowError\<close>, which \<open>cost_add\<close> does not model.
\<close>

datatype cost = Fin int | Inf

fun cost_add :: "cost \<Rightarrow> cost \<Rightarrow> cost" where
  "cost_add (Fin a) (Fin b) = Fin (a + b)"
| "cost_add (Fin a) Inf = Inf"
| "cost_add Inf c = Inf"

fun cost_less :: "cost \<Rightarrow> cost \<Rightarrow> bool" where
  "cost_less (Fin a) (Fin b) = (a < b)"
| "cost_less (Fin a) Inf = True"
| "cost_less Inf c = False"

text \<open>The exceptions the modelled code can raise.\<close>

datatype error = KeyError | ValueError | IndexError

text \<open>
  A Python dict is an association list in insertion order with distinct keys:
  \<^verbatim>\<open>d.get(k)\<close> is \<^term>\<open>map_of d k\<close>, \<^verbatim>\<open>d[k] = v\<close> is \<^term>\<open>AList.update k v d\<close>
  (the value replaced in place, a new key appended), \<^verbatim>\<open>list(d.keys())\<close> is
  \<^term>\<open>map fst d\<close>.
\<close>

type_synonym ('k, 'v) dict = "('k \<times> 'v) list"

text \<open>\<^verbatim>\<open>d.setdefault(k, default)\<close>: the value stored for \<open>k\<close>, and the dict, which gains
  the entry \<open>k: default\<close> when \<open>k\<close> was not a key.\<close>

definition setdefault :: "'k \<Rightarrow> 'v \<Rightarrow> ('k, 'v) dict \<Rightarrow> 'v \<times> ('k, 'v) dict" where
  "setdefault k d m = (case map_of m k of Some v \<Rightarrow> (v, m) | None \<Rightarrow> (d, m @ [(k, d)]))"

section \<open>Search-tree nodes\<close>

text \<open>
  \<^verbatim>\<open>class Node\<close>: the fields set by \<^verbatim>\<open>__init__\<close>. The slots \<^verbatim>\<open>f\<close> and \<^verbatim>\<open>h\<close> that
  \<^verbatim>\<open>memoize\<close> adds only cache the value of a function of the node and are left out.
  \<^verbatim>\<open>__eq__\<close> and \<^verbatim>\<open>__hash__\<close> compare the states, so membership of a node in a frontier
  is membership of its state among the frontier's states.
\<close>

datatype ('s, 'a) node =
  Node (state: 's) (parent: "('s, 'a) node option") (action: "'a option")
       (path_cost: cost) (depth: nat)

text \<open>\<^verbatim>\<open>Node.__init__(state, parent=None, action=None, path_cost=0)\<close>. A node object is
  always truthy, so \<^verbatim>\<open>if parent:\<close> tests \<^verbatim>\<open>parent is not None\<close>.\<close>

definition Node_init ::
  "'s \<Rightarrow> ('s, 'a) node option \<Rightarrow> 'a option \<Rightarrow> cost \<Rightarrow> ('s, 'a) node" where
  "Node_init s p a c = Node s p a c (case p of None \<Rightarrow> 0 | Some q \<Rightarrow> depth q + 1)"

text \<open>The root a search starts from: \<^verbatim>\<open>Node(problem.initial)\<close>.\<close>

definition root_node :: "'s \<Rightarrow> ('s, 'a) node" where
  "root_node s = Node_init s None None (Fin 0)"

text \<open>\<^verbatim>\<open>Node.path\<close>: the loop \<^verbatim>\<open>while node: path_back.append(node); node = node.parent\<close>,
  then the list reversed.\<close>

fun path_back :: "('s, 'a) node \<Rightarrow> ('s, 'a) node list" where
  "path_back (Node s p a c d) =
     Node s p a c d # (case p of None \<Rightarrow> [] | Some q \<Rightarrow> path_back q)"

definition path :: "('s, 'a) node \<Rightarrow> ('s, 'a) node list" where
  "path n = rev (path_back n)"

text \<open>\<^verbatim>\<open>Node.solution\<close>: \<^verbatim>\<open>[node.action for node in self.path()[1:]]\<close>.\<close>

definition solution :: "('s, 'a) node \<Rightarrow> 'a option list" where
  "solution n = map action (drop 1 (path n))"

section \<open>Problems\<close>

text \<open>
  A problem object, as the search functions use it: the field \<^verbatim>\<open>initial\<close> and the methods
  \<^verbatim>\<open>actions\<close>, \<^verbatim>\<open>result\<close>, \<^verbatim>\<open>goal_test\<close> and \<^verbatim>\<open>path_cost\<close> a subclass provides. A method
  may change what the problem object refers to (\<^verbatim>\<open>GraphProblem.actions\<close> and
  \<^verbatim>\<open>GraphProblem.path_cost\<close> go through \<^verbatim>\<open>Graph.get\<close>, which writes to the graph), so
  \<^verbatim>\<open>actions\<close> and \<^verbatim>\<open>path_cost\<close> take that mutable part \<open>'g\<close> and return it updated.
\<close>

record ('g, 's, 'a) problem =
  initial :: 's
  actions :: "'s \<Rightarrow> 'g \<Rightarrow> 'a list \<times> 'g"
  result :: "'s \<Rightarrow> 'a \<Rightarrow> 's"
  goal_test :: "'s \<Rightarrow> bool"
  path_cost_of :: "cost \<Rightarrow> 's \<Rightarrow> 'a \<Rightarrow> 's \<Rightarrow> 'g \<Rightarrow> cost \<times> 'g"

text \<open>The goal of a problem: one state, or a list of states.\<close>

datatype 's goal = GoalState 's | GoalList "'s list"

text \<open>\<^verbatim>\<open>Problem.goal_test\<close>. Modelled from the spec: \<^verbatim>\<open>is_in\<close> of \<^verbatim>\<open>utils\<close> is not among
  the sources; the spec has the test true iff the state equals the single goal or is a
  member of the goal set.\<close>

fun Problem_goal_test :: "'s goal \<Rightarrow> 's \<Rightarrow> bool" where
  "Problem_goal_test (GoalList gs) s = (s \<in> set gs)"
| "Problem_goal_test (GoalState t) s = (s = t)"

text \<open>\<^verbatim>\<open>Problem.path_cost\<close>, the default: one for every step.\<close>

definition Problem_path_cost :: "cost \<Rightarrow> 's \<Rightarrow> 'a \<Rightarrow> 's \<Rightarrow> cost" where
  "Problem_path_cost c state1 act state2 = cost_add c (Fin 1)"

text \<open>\<^verbatim>\<open>Node.child_node\<close> and \<^verbatim>\<open>Node.expand\<close>. The list comprehension of \<^verbatim>\<open>expand\<close> calls
  \<^verbatim>\<open>problem.actions\<close> once, then builds the children in the order of the actions.\<close>

definition child_node ::
  "('s, 'a) node \<Rightarrow> ('g, 's, 'a) problem \<Rightarrow> 'a \<Rightarrow> 'g \<Rightarrow> ('s, 'a) node \<times> 'g" where
  "child_node n p a g =
     (let next_state = result p (state n) a;
          (c, g') = path_cost_of p (path_cost n) (state n) a next_state g
      in (Node_init next_state (Some n) (Some a) c, g'))"

fun expand_actions ::
  "('s, 'a) node \<Rightarrow> ('g, 's, 'a) problem \<Rightarrow> 'a list \<Rightarrow> 'g \<Rightarrow> ('s, 'a) node list \<times> 'g" where
  "expand_actions n p [] g = ([], g)"
| "expand_actions n p (a # as) g =
     (let (c, g1) = child_node n p a g;
          (cs, g2) = expand_actions n p as g1
      in (c # cs, g2))"

definition expand ::
  "('s, 'a) node \<Rightarrow> ('g, 's, 'a) problem \<Rightarrow> 'g \<Rightarrow> ('s, 'a) node list \<times> 'g" where
  "expand n p g = (let (as, g1) = actions p (state n) g in expand_actions n p as g1)"

section \<open>Graphs and graph problems\<close>

text \<open>
  \<^verbatim>\<open>class Graph\<close>: \<^verbatim>\<open>graph_dict\<close> maps a node to the dict of its links (neighbour to
  distance), \<^verbatim>\<open>directed\<close> is the constructor's flag, and \<^verbatim>\<open>locations\<close> is the attribute
  the loader sets afterwards (absent, \<open>None\<close>, on a graph nobody gave one). A location is
  the list of integers the loader parsed.
\<close>

record 'v graph =
  graph_dict :: "('v, ('v, int) dict) dict"
  directed :: bool
  locations :: "('v, int list) dict option"


text \<open>\<^verbatim>\<open>Graph.get(a, b=None)\<close> returns the dict of links of \<open>a\<close>, or the distance from
  \<open>a\<close> to \<open>b\<close> (\<open>None\<close> when there is no link); either way \<^verbatim>\<open>setdefault\<close> runs first.\<close>

datatype 'v get_result = Links "('v, int) dict" | Distance "int option"

definition get :: "'v graph \<Rightarrow> 'v \<Rightarrow> 'v option \<Rightarrow> 'v get_result \<times> 'v graph" where
  "get g a b =
     (let (links, gd) = setdefault a [] (graph_dict g);
          g' = g\<lparr>graph_dict := gd\<rparr>
      in case b of
           None \<Rightarrow> (Links links, g')
         | Some b' \<Rightarrow> (Distance (map_of links b'), g'))"

text \<open>The weight of the edge from \<open>a\<close> to \<open>b\<close> that the graph holds, if any.\<close>

definition edge_weight :: "'v graph \<Rightarrow> 'v \<Rightarrow> 'v \<Rightarrow> int option" where
  "edge_weight g a b =
     (case map_of (graph_dict g) a of None \<Rightarrow> None | Some links \<Rightarrow> map_of links b)"

text \<open>\<^verbatim>\<open>GraphProblem.actions\<close>: \<^verbatim>\<open>list(self.graph.get(A).keys())\<close>. (\<^verbatim>\<open>get\<close> without
  \<open>b\<close> always returns links; the other case is there for totality.)\<close>

definition GraphProblem_actions :: "'v \<Rightarrow> 'v graph \<Rightarrow> 'v list \<times> 'v graph" where
  "GraphProblem_actions A g =
     (case get g A None of
        (Links links, g') \<Rightarrow> (map fst links, g')
      | (Distance d, g') \<Rightarrow> ([], g'))"

text \<open>\<^verbatim>\<open>GraphProblem.result\<close>: the action is the neighbour gone to.\<close>

definition GraphProblem_result :: "'v \<Rightarrow> 'v \<Rightarrow> 'v" where
  "GraphProblem_result s a = a"

text \<open>\<^verbatim>\<open>GraphProblem.path_cost\<close>:
  \<^verbatim>\<open>cost_so_far + (self.graph.get(A, B) or np.inf)\<close>. Python's \<^verbatim>\<open>or\<close> takes its right
  operand when the left one is falsy: \<open>None\<close>, and also the distance \<open>0\<close>.\<close>

definition or_inf :: "int option \<Rightarrow> cost" where
  "or_inf d = (case d of None \<Rightarrow> Inf | Some w \<Rightarrow> if w = 0 then Inf else Fin w)"

definition GraphProblem_path_cost ::
  "cost \<Rightarrow> 'v \<Rightarrow> 'v \<Rightarrow> 'v \<Rightarrow> 'v graph \<Rightarrow> cost \<times> 'v graph" where
  "GraphProblem_path_cost cost_so_far A act B g =
     (case get g A (Some B) of
        (Distance d, g') \<Rightarrow> (cost_add cost_so_far (or_inf d), g')
      | (Links links, g') \<Rightarrow> (cost_add cost_so_far Inf, g'))"

text \<open>\<^verbatim>\<open>GraphProblem(initial, goal, graph)\<close>: the problem whose methods are the ones above;
  the graph is what they may update.\<close>

definition GraphProblem :: "'v \<Rightarrow> 'v goal \<Rightarrow> ('v graph, 'v, 'v) problem" where
  "GraphProblem init gl =
     \<lparr>initial = init, actions = GraphProblem_actions, result = GraphProblem_result,
      goal_test = Problem_goal_test gl, path_cost_of = GraphProblem_path_cost\<rparr>"

subsection \<open>The straight-line heuristic\<close>

text \<open>The integer square root, rounded down.\<close>

primrec isqrt :: "nat \<Rightarrow> nat" where
  "isqrt 0 = 0"
| "isqrt (Suc n) = (let r = isqrt n in if (r + 1) * (r + 1) \<le> Suc n then r + 1 else r)"

text \<open>\<^verbatim>\<open>int(distance(a, b))\<close>. Modelled from the spec: \<^verbatim>\<open>distance\<close> of \<^verbatim>\<open>utils\<close> is not
  among the sources; the spec has it the straight-line Euclidean distance between two
  coordinate pairs, and \<^verbatim>\<open>int\<close> drops the fraction. Unpacking a location that is not a
  pair raises \<^verbatim>\<open>ValueError\<close>.\<close>

fun int_distance :: "int list \<Rightarrow> int list \<Rightarrow> error + int" where
  "int_distance [xA, yA] [xB, yB] =
     Inr (int (isqrt (nat ((xA - xB) * (xA - xB) + (yA - yB) * (yA - yB)))))"
| "int_distance a b = Inl ValueError"

text \<open>\<^verbatim>\<open>int(distance(locs[s], locs[t]))\<close>: a subscript of a missing key raises
  \<^verbatim>\<open>KeyError\<close>, the left one first.\<close>

definition loc_distance :: "('v, int list) dict \<Rightarrow> 'v \<Rightarrow> 'v \<Rightarrow> error + int" where
  "loc_distance locs s t =
     (case map_of locs s of
        None \<Rightarrow> Inl KeyError
      | Some a \<Rightarrow> (case map_of locs t of None \<Rightarrow> Inl KeyError | Some b \<Rightarrow> int_distance a b))"

text \<open>\<^verbatim>\<open>min(int(distance(locs[s], locs[goal])) for goal in goals)\<close>: the distances are
  computed goal by goal, the first exception ends the call, and \<^verbatim>\<open>min\<close> of no value at
  all raises \<^verbatim>\<open>ValueError\<close>. The accumulator is the least value so far.\<close>

fun min_distance ::
  "('v, int list) dict \<Rightarrow> 'v \<Rightarrow> 'v list \<Rightarrow> int option \<Rightarrow> error + int" where
  "min_distance locs s [] None = Inl ValueError"
| "min_distance locs s [] (Some m) = Inr m"
| "min_distance locs s (t # ts) acc =
     (case loc_distance locs s t of
        Inl e \<Rightarrow> Inl e
      | Inr d \<Rightarrow> min_distance locs s ts
                 (Some (case acc of None \<Rightarrow> d | Some m \<Rightarrow> if d < m then d else m)))"

text \<open>\<^verbatim>\<open>GraphProblem.h\<close>, called on a node (a node is never a \<^verbatim>\<open>str\<close>). \<^verbatim>\<open>if locs:\<close> is
  false when the graph has no \<^verbatim>\<open>locations\<close> attribute and when the dict is empty.\<close>

definition h :: "'v goal \<Rightarrow> 'v graph \<Rightarrow> ('v, 'a) node \<Rightarrow> error + cost" where
  "h gl g n =
     (case locations g of
        None \<Rightarrow> Inr Inf
      | Some locs \<Rightarrow>
          if locs = [] then Inr Inf
          else (case gl of
                  GoalList gs \<Rightarrow> map_sum id Fin (min_distance locs (state n) gs None)
                | GoalState t \<Rightarrow> map_sum id Fin (loc_distance locs (state n) t)))"

section \<open>The search algorithms\<close>

text \<open>
  What a search returns: the tuple \<^verbatim>\<open>(node, len(explored))\<close>, the node alone, or the number
  \<^verbatim>\<open>len(explored)\<close> alone.
\<close>

datatype ('s, 'a) search_result =
  Goal_and_count "('s, 'a) node" nat
| Goal_only "('s, 'a) node"
| Count_only nat

text \<open>
  A \<^verbatim>\<open>while\<close> loop: the body maps the loop's variables to the value the function returns
  from inside the loop or after it (\<open>Inl\<close>), or to the variables of the next iteration
  (\<open>Inr\<close>). A loop that never returns has the value \<open>None\<close>.
\<close>

partial_function (option) while_loop :: "('st \<Rightarrow> 'r + 'st) \<Rightarrow> 'st \<Rightarrow> 'r option" where
  "while_loop body st = (case body st of Inl r \<Rightarrow> Some r | Inr st' \<Rightarrow> while_loop body st')"

declare while_loop.simps [code]

text \<open>The variables a loop has at the start of one of its iterations, from \<open>st0\<close> on.\<close>

inductive visits :: "('st \<Rightarrow> 'r + 'st) \<Rightarrow> 'st \<Rightarrow> 'st \<Rightarrow> bool" for body st0 where
  visits_start: "visits body st0 st0"
| visits_step: "visits body st0 st \<Longrightarrow> body st = Inr st' \<Longrightarrow> visits body st0 st'"

text \<open>\<^verbatim>\<open>child in frontier\<close> on a list or a deque of nodes: some node of it has the state of
  the child.\<close>

definition in_frontier :: "('s, 'a) node \<Rightarrow> ('s, 'a) node list \<Rightarrow> bool" where
  "in_frontier child frontier = (state child \<in> state ` set frontier)"

subsection \<open>Depth-first graph search\<close>

text \<open>
  \<^verbatim>\<open>frontier.extend(child for child in ... if child.state not in explored and child not in frontier)\<close>:
  the list grows child by child while the generator runs, so a child is tested against
  the children appended before it.
\<close>

fun dfs_extend ::
  "('s, 'a) node list \<Rightarrow> 's set \<Rightarrow> ('s, 'a) node list \<Rightarrow> ('s, 'a) node list" where
  "dfs_extend [] explored frontier = frontier"
| "dfs_extend (child # children) explored frontier =
     dfs_extend children explored
       (if state child \<notin> explored \<and> \<not> in_frontier child frontier
        then frontier @ [child] else frontier)"

text \<open>One iteration of the loop of \<^verbatim>\<open>depth_first_graph_search\<close>, on the frontier (a stack,
  its top last), the explored set and the problem's mutable part.\<close>

definition dfs_iteration ::
  "('g, 's, 'a) problem \<Rightarrow> ('s, 'a) node list \<times> 's set \<times> 'g \<Rightarrow>
   (('s, 'a) search_result \<times> 'g) + (('s, 'a) node list \<times> 's set \<times> 'g)" where
  "dfs_iteration p st =
     (case st of (frontier, explored, g) \<Rightarrow>
        if frontier = [] then Inl (Count_only (card explored), g)
        else
          let node = last frontier; frontier1 = butlast frontier in
          if goal_test p (state node) then Inl (Goal_and_count node (card explored), g)
          else
            let explored1 = insert (state node) explored;
                (children, g1) = expand node p g
            in Inr (dfs_extend children explored1 frontier1, explored1, g1))"

definition depth_first_graph_search ::
  "('g, 's, 'a) problem \<Rightarrow> 'g \<Rightarrow> (('s, 'a) search_result \<times> 'g) option" where
  "depth_first_graph_search p g =
     while_loop (dfs_iteration p) ([root_node (initial p)], {}, g)"

subsection \<open>Breadth-first graph search\<close>

text \<open>The \<^verbatim>\<open>for child in node.expand(problem)\<close> loop: it returns the first new child that
  passes the goal test (\<open>Inl\<close>), or ends with the frontier (\<open>Inr\<close>).\<close>

fun bfs_children ::
  "('g, 's, 'a) problem \<Rightarrow> ('s, 'a) node list \<Rightarrow> 's set \<Rightarrow> ('s, 'a) node list \<Rightarrow>
   ('s, 'a) node + ('s, 'a) node list" where
  "bfs_children p [] explored frontier = Inr frontier"
| "bfs_children p (child # children) explored frontier =
     (if state child \<notin> explored \<and> \<not> in_frontier child frontier then
        if goal_test p (state child) then Inl child
        else bfs_children p children explored (frontier @ [child])
      else bfs_children p children explored frontier)"

text \<open>One iteration of the loop of \<^verbatim>\<open>breadth_first_graph_search\<close>; the frontier is a
  queue, its head first.\<close>

definition bfs_iteration ::
  "('g, 's, 'a) problem \<Rightarrow> ('s, 'a) node list \<times> 's set \<times> 'g \<Rightarrow>
   (('s, 'a) search_result \<times> 'g) + (('s, 'a) node list \<times> 's set \<times> 'g)" where
  "bfs_iteration p st =
     (case st of (frontier, explored, g) \<Rightarrow>
        (case frontier of
           [] \<Rightarrow> Inl (Count_only (card explored), g)
         | node # frontier1 \<Rightarrow>
             let explored1 = insert (state node) explored;
                 (children, g1) = expand node p g
             in (case bfs_children p children explored1 frontier1 of
                   Inl child \<Rightarrow> Inl (Goal_and_count child (card explored1), g1)
                 | Inr frontier2 \<Rightarrow> Inr (frontier2, explored1, g1))))"

definition breadth_first_graph_search ::
  "('g, 's, 'a) problem \<Rightarrow> 'g \<Rightarrow> (('s, 'a) search_result \<times> 'g) option" where
  "breadth_first_graph_search p g =
     (let node = root_node (initial p) in
      if goal_test p (state node) then Some (Goal_only node, g)
      else while_loop (bfs_iteration p) ([node], {}, g))"

subsection \<open>Best-first graph search\<close>

text \<open>
  The priority queue. Modelled from the spec: \<^verbatim>\<open>PriorityQueue\<close> of \<^verbatim>\<open>utils\<close> is not among
  the sources. The spec has it ordered by the evaluation function \<open>f\<close>, ties broken by
  the order of the states; \<^verbatim>\<open>append\<close> inserts an item under its \<open>f\<close>-value, \<^verbatim>\<open>pop\<close>
  removes and returns the minimum-\<open>f\<close> entry, membership asks whether a state has an
  entry, the subscript gives the \<open>f\<close>-value queued for a state, and deletion removes the
  entry of a state. The queue is the list of its entries, each the \<open>f\<close>-value with the
  item.
\<close>

type_synonym ('s, 'a) priority_queue = "(cost \<times> ('s, 'a) node) list"

definition pq_contains :: "('s, 'a) node \<Rightarrow> ('s, 'a) priority_queue \<Rightarrow> bool" where
  "pq_contains item q = (state item \<in> state ` snd ` set q)"

fun pq_getitem :: "('s, 'a) node \<Rightarrow> ('s, 'a) priority_queue \<Rightarrow> error + cost" where
  "pq_getitem item [] = Inl KeyError"
| "pq_getitem item ((v, n) # q) = (if state n = state item then Inr v else pq_getitem item q)"

fun pq_delitem :: "('s, 'a) node \<Rightarrow> ('s, 'a) priority_queue \<Rightarrow> ('s, 'a) priority_queue" where
  "pq_delitem item [] = []"
| "pq_delitem item ((v, n) # q) = (if state n = state item then q else (v, n) # pq_delitem item q)"

definition entry_less :: "cost \<times> ('s::linorder, 'a) node \<Rightarrow> cost \<times> ('s, 'a) node \<Rightarrow> bool" where
  "entry_less x y =
     (cost_less (fst x) (fst y) \<or> (fst x = fst y \<and> state (snd x) < state (snd y)))"

fun pq_min ::
  "cost \<times> ('s::linorder, 'a) node \<Rightarrow> ('s, 'a) priority_queue \<Rightarrow> cost \<times> ('s, 'a) node" where
  "pq_min m [] = m"
| "pq_min m (x # q) = pq_min (if entry_less x m then x else m) q"

text \<open>\<^verbatim>\<open>pop\<close> on a queue that is not empty (the loop tests that before).\<close>

definition pq_pop ::
  "('s::linorder, 'a) priority_queue \<Rightarrow> ('s, 'a) node \<times> ('s, 'a) priority_queue" where
  "pq_pop q = (let m = pq_min (hd q) (tl q) in (snd m, remove1 m q))"

text \<open>
  What the body of \<^verbatim>\<open>for child in node.expand(problem)\<close> does with one child. The
  evaluation function may raise, and then the search does; \<^verbatim>\<open>memoize\<close> keeps its value
  on the node, so it is computed once for a child.
\<close>

definition bf_child ::
  "(('s, 'a) node \<Rightarrow> error + cost) \<Rightarrow> 's set \<Rightarrow> ('s, 'a) node \<Rightarrow>
   ('s, 'a) priority_queue \<Rightarrow> error + ('s, 'a) priority_queue" where
  "bf_child f explored child frontier =
     (if state child \<notin> explored \<and> \<not> pq_contains child frontier then
        (case f child of
           Inl e \<Rightarrow> Inl e
         | Inr v \<Rightarrow> Inr (frontier @ [(v, child)]))
      else if pq_contains child frontier then
        (case f child of
           Inl e \<Rightarrow> Inl e
         | Inr v \<Rightarrow>
             (case pq_getitem child frontier of
                Inl e \<Rightarrow> Inl e
              | Inr queued \<Rightarrow>
                  if cost_less v queued
                  then Inr (pq_delitem child frontier @ [(v, child)])
                  else Inr frontier))
      else Inr frontier)"

fun bf_children ::
  "(('s, 'a) node \<Rightarrow> error + cost) \<Rightarrow> ('s, 'a) node list \<Rightarrow> 's set \<Rightarrow>
   ('s, 'a) priority_queue \<Rightarrow> error + ('s, 'a) priority_queue" where
  "bf_children f [] explored frontier = Inr frontier"
| "bf_children f (child # children) explored frontier =
     (case bf_child f explored child frontier of
        Inl e \<Rightarrow> Inl e
      | Inr frontier1 \<Rightarrow> bf_children f children explored frontier1)"

text \<open>One iteration of the loop of \<^verbatim>\<open>best_first_graph_search\<close>.\<close>

definition bf_iteration ::
  "('g, 's::linorder, 'a) problem \<Rightarrow> (('s, 'a) node \<Rightarrow> error + cost) \<Rightarrow>
   ('s, 'a) priority_queue \<times> 's set \<times> 'g \<Rightarrow>
   ((error + ('s, 'a) search_result) \<times> 'g) + (('s, 'a) priority_queue \<times> 's set \<times> 'g)" where
  "bf_iteration p f st =
     (case st of (frontier, explored, g) \<Rightarrow>
        if frontier = [] then Inl (Inr (Count_only (card explored)), g)
        else
          let (node, frontier1) = pq_pop frontier in
          if goal_test p (state node) then Inl (Inr (Goal_and_count node (card explored)), g)
          else
            let explored1 = insert (state node) explored;
                (children, g1) = expand node p g
            in (case bf_children f children explored1 frontier1 of
                  Inl e \<Rightarrow> Inl (Inl e, g1)
                | Inr frontier2 \<Rightarrow> Inr (frontier2, explored1, g1)))"

definition best_first_graph_search ::
  "('g, 's::linorder, 'a) problem \<Rightarrow> (('s, 'a) node \<Rightarrow> error + cost) \<Rightarrow> 'g \<Rightarrow>
   ((error + ('s, 'a) search_result) \<times> 'g) option" where
  "best_first_graph_search p f g =
     (let node = root_node (initial p) in
      case f node of
        Inl e \<Rightarrow> Some (Inl e, g)
      | Inr v \<Rightarrow> while_loop (bf_iteration p f) ([(v, node)], {}, g))"

text \<open>\<^verbatim>\<open>astar_search\<close> with the heuristic \<open>hf\<close>: best-first search with
  \<^verbatim>\<open>f = lambda n: n.path_cost + h(n)\<close>.\<close>

definition astar_search ::
  "('g, 's::linorder, 'a) problem \<Rightarrow> (('s, 'a) node \<Rightarrow> error + cost) \<Rightarrow> 'g \<Rightarrow>
   ((error + ('s, 'a) search_result) \<times> 'g) option" where
  "astar_search p hf g =
     best_first_graph_search p (\<lambda>n. map_sum id (cost_add (path_cost n)) (hf n)) g"

subsection \<open>What a search leaves of the problem's mutable part\<close>

text \<open>The methods of the problem keep a property \<open>I\<close> of the mutable part.\<close>

definition problem_preserves :: "('g, 's, 'a) problem \<Rightarrow> ('g \<Rightarrow> bool) \<Rightarrow> bool" where
  "problem_preserves p I =
     (\<forall>g. I g \<longrightarrow> (\<forall>s. I (snd (actions p s g)))
                 \<and> (\<forall>c s a s'. I (snd (path_cost_of p c s a s' g))))"

text \<open>The graph \<open>g'\<close> is \<open>g\<close> but for new keys of \<^verbatim>\<open>graph_dict\<close>, each with an empty dict
  of links, after the entries of \<open>g\<close>.\<close>

definition only_empty_entries_added :: "'v graph \<Rightarrow> 'v graph \<Rightarrow> bool" where
  "only_empty_entries_added g g' =
     (\<exists>ks. distinct ks \<and> set ks \<inter> fst ` set (graph_dict g) = {}
          \<and> g' = g\<lparr>graph_dict := graph_dict g @ map (\<lambda>k. (k, [])) ks\<rparr>)"

subsection \<open>The points of a search and the states of a problem\<close>

text \<open>
  The frontier at the points of \<^verbatim>\<open>depth_first_graph_search\<close>: at the test of the loop,
  after the pop, and after each child the \<^verbatim>\<open>extend\<close> has gone through.
\<close>

inductive dfs_frontier ::
  "('g, 's, 'a) problem \<Rightarrow> 'g \<Rightarrow> ('s, 'a) node list \<Rightarrow> bool" for p g0 where
  dfs_at_loop:
    "visits (dfs_iteration p) ([root_node (initial p)], {}, g0) (frontier, explored, g)
     \<Longrightarrow> dfs_frontier p g0 frontier"
| dfs_popped:
    "visits (dfs_iteration p) ([root_node (initial p)], {}, g0) (frontier, explored, g)
     \<Longrightarrow> frontier \<noteq> []
     \<Longrightarrow> dfs_frontier p g0 (butlast frontier)"
| dfs_extending:
    "visits (dfs_iteration p) ([root_node (initial p)], {}, g0) (frontier, explored, g)
     \<Longrightarrow> frontier \<noteq> []
     \<Longrightarrow> \<not> goal_test p (state (last frontier))
     \<Longrightarrow> dfs_frontier p g0
           (dfs_extend (take k (fst (expand (last frontier) p g)))
              (insert (state (last frontier)) explored) (butlast frontier))"

text \<open>The frontier at the points of \<^verbatim>\<open>breadth_first_graph_search\<close>: at the test of the
  loop, and after each child the \<^verbatim>\<open>for\<close> loop has gone through (none, after the pop).\<close>

inductive bfs_frontier ::
  "('g, 's, 'a) problem \<Rightarrow> 'g \<Rightarrow> ('s, 'a) node list \<Rightarrow> bool" for p g0 where
  bfs_at_loop:
    "visits (bfs_iteration p) ([root_node (initial p)], {}, g0) (frontier, explored, g)
     \<Longrightarrow> bfs_frontier p g0 frontier"
| bfs_in_for:
    "visits (bfs_iteration p) ([root_node (initial p)], {}, g0) (frontier, explored, g)
     \<Longrightarrow> frontier \<noteq> []
     \<Longrightarrow> bfs_children p (take k (fst (expand (hd frontier) p g)))
           (insert (state (hd frontier)) explored) (tl frontier) = Inr frontier2
     \<Longrightarrow> bfs_frontier p g0 frontier2"

text \<open>
  The steps of the \<^verbatim>\<open>for\<close> loop of \<^verbatim>\<open>best_first_graph_search\<close>: in an iteration of the
  search that has popped a node that is no goal, the explored set, the frontier the loop
  has made of the first \<open>k\<close> children, the next child, and what the loop makes of the
  frontier with that child too (the frontier it goes on with, or the exception).
\<close>

inductive bf_for_step ::
  "('g, 's::linorder, 'a) problem \<Rightarrow> (('s, 'a) node \<Rightarrow> error + cost) \<Rightarrow> 'g \<Rightarrow>
   's set \<Rightarrow> ('s, 'a) priority_queue \<Rightarrow> ('s, 'a) node \<Rightarrow>
   error + ('s, 'a) priority_queue \<Rightarrow> bool" for p f g0 where
  bf_for_stepI:
    "f (root_node (initial p)) = Inr v0
     \<Longrightarrow> visits (bf_iteration p f) ([(v0, root_node (initial p))], {}, g0)
           (frontier, explored, g)
     \<Longrightarrow> frontier \<noteq> []
     \<Longrightarrow> \<not> goal_test p (state (fst (pq_pop frontier)))
     \<Longrightarrow> k < length (fst (expand (fst (pq_pop frontier)) p g))
     \<Longrightarrow> bf_children f (take k (fst (expand (fst (pq_pop frontier)) p g)))
           (insert (state (fst (pq_pop frontier))) explored) (snd (pq_pop frontier))
         = Inr frontier2
     \<Longrightarrow> bf_for_step p f g0 (insert (state (fst (pq_pop frontier))) explored) frontier2
           (fst (expand (fst (pq_pop frontier)) p g) ! k)
           (bf_children f (take (Suc k) (fst (expand (fst (pq_pop frontier)) p g)))
              (insert (state (fst (pq_pop frontier))) explored) (snd (pq_pop frontier)))"

text \<open>The frontier at the points of \<^verbatim>\<open>best_first_graph_search\<close>: at the test of the loop,
  after the pop, after each child of the \<^verbatim>\<open>for\<close> loop, and between
  \<^verbatim>\<open>del frontier[child]\<close> and \<^verbatim>\<open>frontier.append(child)\<close> when a child replaces the
  entry of its state.\<close>

inductive bf_frontier ::
  "('g, 's::linorder, 'a) problem \<Rightarrow> (('s, 'a) node \<Rightarrow> error + cost) \<Rightarrow> 'g \<Rightarrow>
   ('s, 'a) priority_queue \<Rightarrow> bool" for p f g0 where
  bf_at_loop:
    "f (root_node (initial p)) = Inr v0
     \<Longrightarrow> visits (bf_iteration p f) ([(v0, root_node (initial p))], {}, g0)
           (frontier, explored, g)
     \<Longrightarrow> bf_frontier p f g0 frontier"
| bf_popped:
    "f (root_node (initial p)) = Inr v0
     \<Longrightarrow> visits (bf_iteration p f) ([(v0, root_node (initial p))], {}, g0)
           (frontier, explored, g)
     \<Longrightarrow> frontier \<noteq> []
     \<Longrightarrow> bf_frontier p f g0 (snd (pq_pop frontier))"
| bf_in_for:
    "f (root_node (initial p)) = Inr v0
     \<Longrightarrow> visits (bf_iteration p f) ([(v0, root_node (initial p))], {}, g0)
           (frontier, explored, g)
     \<Longrightarrow> frontier \<noteq> []
     \<Longrightarrow> \<not> goal_test p (state (fst (pq_pop frontier)))
     \<Longrightarrow> bf_children f (take k (fst (expand (fst (pq_pop frontier)) p g)))
           (insert (state (fst (pq_pop frontier))) explored) (snd (pq_pop frontier))
         = Inr frontier2
     \<Longrightarrow> bf_frontier p f g0 frontier2"
| bf_deleted:
    "f (root_node (initial p)) = Inr v0
     \<Longrightarrow> visits (bf_iteration p f) ([(v0, root_node (initial p))], {}, g0)
           (frontier, explored, g)
     \<Longrightarrow> frontier \<noteq> []
     \<Longrightarrow> \<not> goal_test p (state (fst (pq_pop frontier)))
     \<Longrightarrow> k < length (fst (expand (fst (pq_pop frontier)) p g))
     \<Longrightarrow> bf_children f (take k (fst (expand (fst (pq_pop frontier)) p g)))
           (insert (state (fst (pq_pop frontier))) explored) (snd (pq_pop frontier))
         = Inr frontier2
     \<Longrightarrow> pq_contains (fst (expand (fst (pq_pop frontier)) p g) ! k) frontier2
     \<Longrightarrow> f (fst (expand (fst (pq_pop frontier)) p g) ! k) = Inr v
     \<Longrightarrow> pq_getitem (fst (expand (fst (pq_pop frontier)) p g) ! k) frontier2 = Inr w
     \<Longrightarrow> cost_less v w
     \<Longrightarrow> bf_frontier p f g0 (pq_delitem (fst (expand (fst (pq_pop frontier)) p g) ! k) frontier2)"

text \<open>
  On the mutable parts that satisfy \<open>I\<close>, which the methods keep, the actions of a state
  are the list \<open>acts\<close> gives: the problem has a fixed successor relation there.
\<close>

definition pure_on ::
  "('g, 's, 'a) problem \<Rightarrow> ('g \<Rightarrow> bool) \<Rightarrow> ('s \<Rightarrow> 'a list) \<Rightarrow> bool" where
  "pure_on p I acts =
     (problem_preserves p I \<and> (\<forall>g s. I g \<longrightarrow> fst (actions p s g) = acts s))"

text \<open>The states reachable from the initial state by the actions \<open>acts\<close> gives.\<close>

definition reachable_states :: "('g, 's, 'a) problem \<Rightarrow> ('s \<Rightarrow> 'a list) \<Rightarrow> 's set" where
  "reachable_states p acts =
     {s. (initial p, s) \<in> {(s, s'). \<exists>a \<in> set (acts s). s' = result p s a}\<^sup>*}"

text \<open>The number of explored states in what a search returns, if there is one.\<close>

fun explored_count :: "('s, 'a) search_result \<Rightarrow> nat option" where
  "explored_count (Goal_and_count n k) = Some k"
| "explored_count (Goal_only n) = None"
| "explored_count (Count_only k) = Some k"

text \<open>The frontier of a best-first search has no state twice and none of the explored
  states.\<close>

definition frontier_ok :: "'s set \<Rightarrow> ('s, 'a) priority_queue \<Rightarrow> bool" where
  "frontier_ok explored q =
     (distinct (map (state \<circ> snd) q) \<and> explored \<inter> (state \<circ> snd) ` set q = {})"

text \<open>What holds of the loop variables of the three searches; \<open>S\<close> is the set of the
  states in the frontier.\<close>

definition explored_ok ::
  "('g, 's, 'a) problem \<Rightarrow> ('g \<Rightarrow> bool) \<Rightarrow> ('s \<Rightarrow> 'a list) \<Rightarrow> 's set \<Rightarrow> 's set \<Rightarrow> 'g \<Rightarrow> bool" where
  "explored_ok p I acts S explored g =
     (I g \<and> finite explored \<and> explored \<subseteq> reachable_states p acts
      \<and> S \<subseteq> reachable_states p acts)"

text \<open>The neighbours of a node in a graph, in the order of its dict of links, and the
  nodes of a graph that some edge leads to.\<close>

definition graph_actions :: "'v graph \<Rightarrow> 'v \<Rightarrow> 'v list" where
  "graph_actions g s = map fst (case map_of (graph_dict g) s of None \<Rightarrow> [] | Some l \<Rightarrow> l)"

definition graph_targets :: "'v graph \<Rightarrow> 'v set" where
  "graph_targets g = (\<Union>(a, l) \<in> set (graph_dict g). fst ` set l)"

subsection \<open>A small graph problem\<close>

text \<open>
  The graph with the edges 1 to 2 (weight 5), 1 to 3 (weight 1) and 3 to 2 (weight 1), the
  problem of going from 1 to 9, which the graph does not have, the evaluation function of
  uniform-cost search, and the node of that problem for a state, a parent and a path cost.
\<close>

definition example_graph :: "int graph" where
  "example_graph =
     \<lparr>graph_dict = [(1, [(2, 5), (3, 1)]), (3, [(2, 1)])], directed = True, locations = None\<rparr>"

definition example_problem :: "(int graph, int, int) problem" where
  "example_problem = GraphProblem 1 (GoalState 9)"

definition by_path_cost :: "(int, int) node \<Rightarrow> error + cost" where
  "by_path_cost n = Inr (path_cost n)"

definition example_node :: "int \<Rightarrow> (int, int) node option \<Rightarrow> int \<Rightarrow> (int, int) node" where
  "example_node s par c = Node_init s par (Some s) (Fin c)"

subsection \<open>Paths\<close>

text \<open>The state \<open>t\<close> is reached from the initial state in \<open>m\<close> steps, each an action of
  \<open>acts\<close>.\<close>

primrec reach_in ::
  "('g, 's, 'a) problem \<Rightarrow> ('s \<Rightarrow> 'a list) \<Rightarrow> nat \<Rightarrow> 's \<Rightarrow> bool" where
  "reach_in p acts 0 t = (t = initial p)"
| "reach_in p acts (Suc m) t =
     (\<exists>u. reach_in p acts m u \<and> (\<exists>a \<in> set (acts u). t = result p u a))"

text \<open>A node of the search tree of the problem: the root holds the initial state at
  depth 0, and any other node holds a successor of the state of its parent, one deeper.\<close>

fun node_ok :: "('g, 's, 'a) problem \<Rightarrow> ('s \<Rightarrow> 'a list) \<Rightarrow> ('s, 'a) node \<Rightarrow> bool" where
  "node_ok p acts (Node s par a c d) =
     (case par of
        None \<Rightarrow> s = initial p \<and> d = 0
      | Some q \<Rightarrow> node_ok p acts q \<and> d = depth q + 1
                 \<and> (\<exists>b \<in> set (acts (state q)). s = result p (state q) b))"

text \<open>A path of a graph: a list of nodes, not empty, each with an edge to the next.\<close>

definition graph_walk :: "'v graph \<Rightarrow> 'v list \<Rightarrow> bool" where
  "graph_walk g xs =
     (xs \<noteq> [] \<and> (\<forall>i. Suc i < length xs \<longrightarrow> edge_weight g (xs ! i) (xs ! Suc i) \<noteq> None))"

text \<open>
  What holds of the loop variables of \<^verbatim>\<open>breadth_first_graph_search\<close> at the test of its
  loop: the frontier holds nodes of the search tree, no state twice and none explored, in
  the order of their depths, which differ by one at most and are the least numbers of
  steps to their states; every state as near as the head of the frontier is explored or
  in the frontier, as are the initial state and the successors of the explored states;
  and none of these states passes the goal test.
\<close>

definition bfs_inv ::
  "('g, 's, 'a) problem \<Rightarrow> ('g \<Rightarrow> bool) \<Rightarrow> ('s \<Rightarrow> 'a list) \<Rightarrow>
   ('s, 'a) node list \<times> 's set \<times> 'g \<Rightarrow> bool" where
  "bfs_inv p I acts st =
     (case st of (frontier, explored, g) \<Rightarrow>
        I g
        \<and> (\<forall>n \<in> set frontier. node_ok p acts n)
        \<and> distinct (map state frontier)
        \<and> explored \<inter> state ` set frontier = {}
        \<and> finite explored
        \<and> explored \<subseteq> reachable_states p acts
        \<and> sorted (map depth frontier)
        \<and> (\<forall>n \<in> set frontier. depth n \<le> depth (hd frontier) + 1)
        \<and> (\<forall>n \<in> set frontier. \<forall>m. reach_in p acts m (state n) \<longrightarrow> depth n \<le> m)
        \<and> (\<forall>t \<in> explored. \<forall>a \<in> set (acts t).
              result p t a \<in> explored \<union> state ` set frontier)
        \<and> initial p \<in> explored \<union> state ` set frontier
        \<and> (\<forall>m t. frontier \<noteq> [] \<and> reach_in p acts m t \<and> m \<le> depth (hd frontier)
              \<longrightarrow> t \<in> explored \<union> state ` set frontier)
        \<and> (\<forall>t \<in> explored \<union> state ` set frontier. \<not> goal_test p t))"

section \<open>The graph loader\<close>













text \<open>The local variables of \<^verbatim>\<open>load_graph_from_file\<close> that the loop over the lines
  changes: the dicts \<^verbatim>\<open>nodes\<close> and \<^verbatim>\<open>edges\<close>, \<^verbatim>\<open>origin\<close>, \<^verbatim>\<open>destinations\<close> and
  \<^verbatim>\<open>section\<close>.\<close>

datatype section_name = Nodes | Edges | Origin | Destinations







text \<open>
  The format of the file as the specification gives it: four labelled sections, where nodes are
  \<^verbatim>\<open>id: (x,y)\<close>, edges are \<^verbatim>\<open>(from,to): weight\<close>, the origin is a single id and the
  destinations are semicolon-separated ids. Numbers are written in decimal.
\<close>

definition digit_char :: "nat \<Rightarrow> char" where
  "digit_char n = char_of (48 + n)"

fun decimal :: "nat \<Rightarrow> string" where
  "decimal n = (if n < 10 then [digit_char n] else decimal (n div 10) @ [digit_char (n mod 10)])"

declare decimal.simps [simp del]

definition numeral_of :: "int \<Rightarrow> string" where
  "numeral_of i = (if i < 0 then CHR ''-'' # decimal (nat (- i)) else decimal (nat i))"










section \<open>Properties of the search tree\<close>

lemma path_back_unfold:
  "path_back n = n # (case parent n of None \<Rightarrow> [] | Some q \<Rightarrow> path_back q)"
  by (cases n) simp

lemma path_unfold:
  "path n = (case parent n of None \<Rightarrow> [n] | Some q \<Rightarrow> path q @ [n])"
  unfolding path_def by (subst path_back_unfold) (simp split: option.split)

lemma path_nonempty: "path n \<noteq> []"
  by (subst path_unfold) (simp split: option.split)

lemma last_path: "last (path n) = n"
  by (subst path_unfold) (simp split: option.split)

lemma hd_path_root: "parent (hd (path n)) = None"
proof (induction n)
  case (Node s p a c d)
  show ?case
  proof (cases p)
    case None
    then show ?thesis by (subst path_unfold) simp
  next
    case (Some q)
    with Node have "parent (hd (path q)) = None" by simp
    with Some show ?thesis
      by (subst path_unfold) (simp add: path_nonempty)
  qed
qed

lemma expand_actions_children:
  "list_all2 (\<lambda>a c. \<exists>g'. c = fst (child_node n p a g')) as (fst (expand_actions n p as g))"
proof (induction as arbitrary: g)
  case Nil
  show ?case by simp
next
  case (Cons a as)
  obtain c g1 where c: "child_node n p a g = (c, g1)" by (cases "child_node n p a g")
  obtain cs g2 where cs: "expand_actions n p as g1 = (cs, g2)"
    by (cases "expand_actions n p as g1")
  have "c = fst (child_node n p a g)" using c by simp
  then have "\<exists>g'. c = fst (child_node n p a g')" ..
  moreover have "list_all2 (\<lambda>a c. \<exists>g'. c = fst (child_node n p a g')) as cs"
    using Cons.IH [of g1] cs by simp
  ultimately show ?case using c cs by simp
qed

lemma child_node_fields:
  "state (fst (child_node n p a g)) = result p (state n) a"
  "parent (fst (child_node n p a g)) = Some n"
  "action (fst (child_node n p a g)) = Some a"
  "depth (fst (child_node n p a g)) = depth n + 1"
  "path_cost (fst (child_node n p a g)) =
     fst (path_cost_of p (path_cost n) (state n) a (result p (state n) a) g)"
  by (simp_all add: child_node_def Node_init_def Let_def split: prod.split)

text \<open>
  Claim C7. The root node has depth 0 and no parent. The children \<^verbatim>\<open>expand\<close> returns are,
  action by action in the order of \<^verbatim>\<open>problem.actions\<close>, the nodes \<^verbatim>\<open>child_node\<close> builds;
  such a child has the depth of its parent plus one, the state \<^verbatim>\<open>problem.result\<close> gives
  for the parent's state and the action, the path cost \<^verbatim>\<open>problem.path_cost\<close> returns, the
  expanded node as parent and the action as action. \<^verbatim>\<open>path\<close> of a node is the node alone
  when it has no parent, and the path of its parent followed by the node otherwise, so it
  starts at the root and ends at the node; \<^verbatim>\<open>solution\<close> is the actions of the path
  without its first node.
\<close>

theorem node_tree_construction:
  "depth (root_node s :: ('s, 'a) node) = 0
   \<and> parent (root_node s :: ('s, 'a) node) = None
   \<and> list_all2 (\<lambda>a c. \<exists>g'. c = fst (child_node n p a g'))
        (fst (actions p (state n) g)) (fst (expand n p g))
   \<and> depth (fst (child_node n p a g)) = depth n + 1
   \<and> state (fst (child_node n p a g)) = result p (state n) a
   \<and> path_cost (fst (child_node n p a g)) =
        fst (path_cost_of p (path_cost n) (state n) a (result p (state n) a) g)
   \<and> parent (fst (child_node n p a g)) = Some n
   \<and> action (fst (child_node n p a g)) = Some a
   \<and> path n = (case parent n of None \<Rightarrow> [n] | Some q \<Rightarrow> path q @ [n])
   \<and> parent (hd (path n)) = None
   \<and> last (path n) = n
   \<and> solution n = map action (tl (path n))"
proof (intro conjI)
  show "list_all2 (\<lambda>a c. \<exists>g'. c = fst (child_node n p a g'))
        (fst (actions p (state n) g)) (fst (expand n p g))"
    unfolding expand_def by (simp add: expand_actions_children split: prod.split)
  show "path n = (case parent n of None \<Rightarrow> [n] | Some q \<Rightarrow> path q @ [n])"
    by (rule path_unfold)
  show "solution n = map action (tl (path n))"
    by (simp add: solution_def drop_Suc)
qed (simp_all add: child_node_fields hd_path_root last_path root_node_def Node_init_def)

section \<open>Properties of graphs and graph problems\<close>

lemma map_of_all_None: "(\<forall>b. map_of links b = None) \<Longrightarrow> links = []"
  by (cases links) (auto split: if_splits)

lemma get_links:
  "fst (get g a None) = Links (case map_of (graph_dict g) a of None \<Rightarrow> [] | Some l \<Rightarrow> l)"
  by (simp add: get_def setdefault_def split: option.split)

lemma get_distance:
  "fst (get g a (Some b)) = Distance (edge_weight g a b)"
  by (simp add: get_def setdefault_def edge_weight_def split: option.split)

text \<open>
  Claim C10. When the graph has no edge from \<open>a\<close> to \<open>b\<close>, \<^verbatim>\<open>g.get(a, b)\<close> returns
  \<open>None\<close>, and when \<open>a\<close> is the source of no edge at all, \<^verbatim>\<open>g.get(a)\<close> returns the empty
  dict of links; neither call raises.
\<close>

theorem get_missing_is_no_error:
  "(edge_weight g a b = None \<longrightarrow> fst (get g a (Some b)) = Distance None)
   \<and> ((\<forall>c. edge_weight g a c = None) \<longrightarrow> fst (get g a None) = Links [])"
proof (intro conjI impI)
  assume "edge_weight g a b = None"
  then show "fst (get g a (Some b)) = Distance None" by (simp add: get_distance)
next
  assume none: "\<forall>c. edge_weight g a c = None"
  show "fst (get g a None) = Links []"
  proof (cases "map_of (graph_dict g) a")
    case None
    then show ?thesis by (simp add: get_links)
  next
    case (Some l)
    with none have "\<forall>c. map_of l c = None" by (simp add: edge_weight_def)
    then have "l = []" by (rule map_of_all_None)
    with Some show ?thesis by (simp add: get_links)
  qed
qed

theorem get_missing_is_no_error_witness:
  "edge_weight \<lparr>graph_dict = [(1::int, [(2::int, 4)])], directed = True, locations = None\<rparr> 2 1 = None
   \<and> fst (get \<lparr>graph_dict = [(1::int, [(2::int, 4)])], directed = True, locations = None\<rparr> 2 (Some 1)) = Distance None
   \<and> (\<forall>c. edge_weight \<lparr>graph_dict = [(1::int, [(2::int, 4)])], directed = True, locations = None\<rparr> 2 c = None)
   \<and> fst (get \<lparr>graph_dict = [(1::int, [(2::int, 4)])], directed = True, locations = None\<rparr> 2 None) = Links []"
  using get_missing_is_no_error
    [of "\<lparr>graph_dict = [(1::int, [(2::int, 4)])], directed = True, locations = None\<rparr>" 2 1]
  by (simp add: edge_weight_def)

lemma path_cost_value:
  "fst (GraphProblem_path_cost c A act B g) = cost_add c (or_inf (edge_weight g A B))"
  by (simp add: GraphProblem_path_cost_def get_def setdefault_def edge_weight_def
      split: option.split)

lemma path_cost_nonzero_edge:
  "edge_weight g A B = Some w \<Longrightarrow> w \<noteq> 0 \<Longrightarrow>
   fst (GraphProblem_path_cost c A act B g) = cost_add c (Fin w)"
  by (simp add: path_cost_value or_inf_def)

lemma path_cost_no_edge:
  "edge_weight g A B = None \<Longrightarrow> fst (GraphProblem_path_cost c A act B g) = Inf"
  by (cases c) (simp_all add: path_cost_value or_inf_def)

text \<open>
  Claim C5. \<^verbatim>\<open>GraphProblem.path_cost\<close> adds the weight of the edge to the cost so far, and
  gives an infinite cost where the graph has no such edge (the two lemmas above). An edge
  of weight 0 is the case the code misses: \<^verbatim>\<open>0 or np.inf\<close> is \<^verbatim>\<open>np.inf\<close>, so on the
  graph with the one edge from 1 to 2 of weight 0 the cost 5 becomes infinite, where
  \<open>c + w\<close> is 5.
\<close>

theorem path_cost_zero_weight_edge:
  "edge_weight \<lparr>graph_dict = [(1::int, [(2::int, 0)])], directed = True, locations = None\<rparr> 1 2 = Some 0
   \<and> fst (GraphProblem_path_cost (Fin 5) 1 2 2
        \<lparr>graph_dict = [(1::int, [(2::int, 0)])], directed = True, locations = None\<rparr>) = Inf
   \<and> cost_add (Fin 5) (Fin 0) = Fin 5"
  by (simp add: path_cost_value or_inf_def edge_weight_def)

subsection \<open>The heuristic\<close>

lemma isqrt_bounds: "isqrt n * isqrt n \<le> n \<and> n < (isqrt n + 1) * (isqrt n + 1)"
  by (induction n) (auto simp: Let_def)

lemma isqrt_floor_sqrt: "int (isqrt n) = \<lfloor>sqrt (real n)\<rfloor>"
proof -
  let ?r = "isqrt n"
  have lo: "?r * ?r \<le> n" and hi: "n < (?r + 1) * (?r + 1)"
    using isqrt_bounds [of n] by simp_all
  have "real (?r * ?r) \<le> real n" using lo by (rule of_nat_mono)
  then have "(real ?r)\<^sup>2 \<le> real n" by (simp add: power2_eq_square)
  then have a: "real ?r \<le> sqrt (real n)" by (rule real_le_rsqrt)
  have "real n < real ((?r + 1) * (?r + 1))" using hi by (simp only: of_nat_less_iff)
  then have "real n < (real ?r + 1)\<^sup>2" by (simp add: power2_eq_square algebra_simps)
  then have b: "sqrt (real n) < real ?r + 1"
    by (intro real_less_lsqrt) simp_all
  have "\<lfloor>sqrt (real n)\<rfloor> = int ?r"
    by (rule floor_unique) (use a b in simp_all)
  then show ?thesis by simp
qed

lemma int_distance_floor:
  "int_distance [x, y] [tx, ty] = Inr \<lfloor>sqrt (real_of_int ((x - tx)\<^sup>2 + (y - ty)\<^sup>2))\<rfloor>"
proof -
  let ?k = "(x - tx) * (x - tx) + (y - ty) * (y - ty)"
  have nn: "0 \<le> ?k" by simp
  have "real (nat ?k) = real_of_int ?k" using nn by simp
  then show ?thesis
    by (simp add: isqrt_floor_sqrt power2_eq_square)
qed

lemma loc_distance_floor:
  "map_of locs s = Some [x, y] \<Longrightarrow> map_of locs t = Some [tx, ty] \<Longrightarrow>
   loc_distance locs s t = Inr \<lfloor>sqrt (real_of_int ((x - tx)\<^sup>2 + (y - ty)\<^sup>2))\<rfloor>"
  unfolding loc_distance_def using int_distance_floor by simp

lemma min_distance_Min:
  assumes "\<forall>t \<in> set gs. loc_distance locs s t = Inr (d t)"
    and "gs \<noteq> [] \<or> acc \<noteq> None"
  shows "min_distance locs s gs acc = Inr (Min (d ` set gs \<union> set_option acc))"
  using assms
proof (induction gs arbitrary: acc)
  case Nil
  then show ?case by (cases acc) simp_all
next
  case (Cons t ts)
  have dt: "loc_distance locs s t = Inr (d t)" using Cons.prems by simp
  let ?acc = "Some (case acc of None \<Rightarrow> d t | Some m \<Rightarrow> if d t < m then d t else m)"
  have "min_distance locs s ts ?acc = Inr (Min (d ` set ts \<union> set_option ?acc))"
    using Cons.prems by (intro Cons.IH) simp_all
  moreover have "Min (d ` set ts \<union> set_option ?acc) = Min (d ` set (t # ts) \<union> set_option acc)"
  proof (cases acc)
    case None
    then show ?thesis by simp
  next
    case (Some m)
    have fin: "finite (d ` set ts)" by simp
    have "Min (insert (min (d t) m) (d ` set ts)) = Min (insert (d t) (insert m (d ` set ts)))"
      by (cases "d ` set ts = {}") (simp_all add: Min_insert fin min.assoc)
    moreover have "(if d t < m then d t else m) = min (d t) m" by (simp add: min_def)
    ultimately show ?thesis using Some by (simp add: insert_commute)
  qed
  ultimately show ?case using dt by simp
qed

text \<open>
  Claim C6, as amended. \<^verbatim>\<open>GraphProblem.h\<close> returns the infinite cost when the graph has no
  \<^verbatim>\<open>locations\<close> or an empty one. When \<^verbatim>\<open>locations\<close> is not empty and holds a coordinate
  pair for the state of the node and for the goal, it returns the Euclidean distance
  between the two, rounded down to an integer; for a non-empty list of goals that all
  have a coordinate pair, the least of these distances.
\<close>

theorem h_straight_line_or_inf:
  "((locations g = None \<or> locations g = Some []) \<longrightarrow> h gl g n = Inr Inf)
   \<and> ((locations g = Some locs \<and> locs \<noteq> [] \<and> map_of locs (state n) = Some [x, y]
        \<and> map_of locs t = Some [tx, ty])
       \<longrightarrow> h (GoalState t) g n =
            Inr (Fin \<lfloor>sqrt (real_of_int ((x - tx)\<^sup>2 + (y - ty)\<^sup>2))\<rfloor>))
   \<and> ((locations g = Some locs \<and> locs \<noteq> [] \<and> map_of locs (state n) = Some [x, y]
        \<and> gs \<noteq> [] \<and> (\<forall>t \<in> set gs. map_of locs t = Some [cx t, cy t]))
       \<longrightarrow> h (GoalList gs) g n =
            Inr (Fin (Min ((\<lambda>t. \<lfloor>sqrt (real_of_int ((x - cx t)\<^sup>2 + (y - cy t)\<^sup>2))\<rfloor>) ` set gs))))"
proof (intro conjI impI)
  assume "locations g = None \<or> locations g = Some []"
  then show "h gl g n = Inr Inf" by (auto simp: h_def)
next
  assume "locations g = Some locs \<and> locs \<noteq> [] \<and> map_of locs (state n) = Some [x, y]
        \<and> map_of locs t = Some [tx, ty]"
  then show "h (GoalState t) g n =
            Inr (Fin \<lfloor>sqrt (real_of_int ((x - tx)\<^sup>2 + (y - ty)\<^sup>2))\<rfloor>)"
    by (simp add: h_def loc_distance_floor)
next
  let ?d = "\<lambda>t. \<lfloor>sqrt (real_of_int ((x - cx t)\<^sup>2 + (y - cy t)\<^sup>2))\<rfloor>"
  assume a: "locations g = Some locs \<and> locs \<noteq> [] \<and> map_of locs (state n) = Some [x, y]
        \<and> gs \<noteq> [] \<and> (\<forall>t \<in> set gs. map_of locs t = Some [cx t, cy t])"
  then have "\<forall>t \<in> set gs. loc_distance locs (state n) t = Inr (?d t)"
    by (simp add: loc_distance_floor)
  then have "min_distance locs (state n) gs None = Inr (Min (?d ` set gs \<union> set_option None))"
    using a by (intro min_distance_Min) simp_all
  then show "h (GoalList gs) g n = Inr (Fin (Min (?d ` set gs)))"
    using a by (simp add: h_def)
qed

text \<open>
  The claim C6 as stated fails: with a non-empty \<^verbatim>\<open>locations\<close> that has no entry for the
  goal 2, \<^verbatim>\<open>h\<close> raises \<^verbatim>\<open>KeyError\<close>; it does not return the infinite cost.
\<close>

theorem h_missing_coordinate_raises:
  "map_of [(1::int, [0, 0])] 2 = None
   \<and> h (GoalState 2) \<lparr>graph_dict = [(1, [(2, 4)])], directed = True,
        locations = Some [(1::int, [0, 0])]\<rparr> (root_node 1 :: (int, int) node) = Inl KeyError
   \<and> h (GoalState 2) \<lparr>graph_dict = [(1, [(2, 4)])], directed = True,
        locations = Some [(1::int, [0, 0])]\<rparr> (root_node 1 :: (int, int) node) \<noteq> Inr Inf"
  by (simp add: h_def loc_distance_def root_node_def Node_init_def)

theorem h_straight_line_or_inf_witness:
  "h (GoalState 2) \<lparr>graph_dict = [(1, [(2, 4)])], directed = True, locations = None\<rparr>
      (root_node 1 :: (int, int) node) = Inr Inf
   \<and> h (GoalState 5) \<lparr>graph_dict = [], directed = True,
        locations = Some [(2::int, [2, 2]), (5, [6, 3])]\<rparr> (root_node 2 :: (int, int) node)
      = Inr (Fin \<lfloor>sqrt (real_of_int ((2 - 6)\<^sup>2 + (2 - 3)\<^sup>2))\<rfloor>)
   \<and> h (GoalList [5, 1]) \<lparr>graph_dict = [], directed = True,
        locations = Some [(1::int, [4, 1]), (2, [2, 2]), (5, [6, 3])]\<rparr>
        (root_node 2 :: (int, int) node)
      = Inr (Fin (Min ((\<lambda>t. \<lfloor>sqrt (real_of_int
            ((2 - (if t = 5 then 6 else 4))\<^sup>2 + (2 - (if t = 5 then 3 else 1))\<^sup>2))\<rfloor>) ` set [5, 1::int])))"
proof (intro conjI)
  let ?g1 = "\<lparr>graph_dict = [(1, [(2, 4)])], directed = True, locations = None\<rparr> :: int graph"
  let ?l2 = "[(2::int, [2, 2]), (5, [6, 3])]"
  let ?g2 = "\<lparr>graph_dict = [], directed = True, locations = Some ?l2\<rparr> :: int graph"
  let ?l3 = "[(1::int, [4, 1]), (2, [2, 2]), (5, [6, 3])]"
  let ?g3 = "\<lparr>graph_dict = [], directed = True, locations = Some ?l3\<rparr> :: int graph"
  let ?n1 = "root_node 1 :: (int, int) node"
  let ?n2 = "root_node 2 :: (int, int) node"
  show "h (GoalState 2) ?g1 ?n1 = Inr Inf"
    using h_straight_line_or_inf [of ?g1 "GoalState 2" ?n1] by simp
  show "h (GoalState 5) ?g2 ?n2 = Inr (Fin \<lfloor>sqrt (real_of_int ((2 - 6)\<^sup>2 + (2 - 3)\<^sup>2))\<rfloor>)"
    using h_straight_line_or_inf [of ?g2 _ ?n2 ?l2 2 2 5 6 3]
    by (simp add: root_node_def Node_init_def)
  show "h (GoalList [5, 1]) ?g3 ?n2 = Inr (Fin (Min ((\<lambda>t. \<lfloor>sqrt (real_of_int
            ((2 - (if t = 5 then 6 else 4))\<^sup>2 + (2 - (if t = 5 then 3 else 1))\<^sup>2))\<rfloor>) ` set [5, 1::int])))"
    using h_straight_line_or_inf [of ?g3 _ ?n2 ?l3 2 2 _ _ _ "[5, 1]"
        "\<lambda>t. if t = 5 then 6 else 4" "\<lambda>t. if t = 5 then 3 else 1"]
    by (simp add: root_node_def Node_init_def)
qed

lemma h_scenario_1:
  "h (GoalState 5) \<lparr>graph_dict = [], directed = True,
        locations = Some [(2::int, [2, 2]), (5, [6, 3])]\<rparr> (root_node 2 :: (int, int) node)
      = Inr (Fin 4)"
  by code_simp

section \<open>Properties of the searches\<close>

subsection \<open>Loops\<close>

lemma while_loop_Inl: "body st = Inl r \<Longrightarrow> while_loop body st = Some r"
  by (subst while_loop.simps) simp

lemma while_loop_Inr: "body st = Inr st' \<Longrightarrow> while_loop body st = while_loop body st'"
  by (subst while_loop.simps) simp

lemma visits_first_step:
  "visits body st1 st \<Longrightarrow> body st0 = Inr st1 \<Longrightarrow> visits body st0 st"
proof (induction rule: visits.induct)
  case visits_start
  from visits.visits_start [of body st0] visits_start show ?case
    by (rule visits.visits_step)
next
  case (visits_step st st')
  then show ?case by (blast intro: visits.visits_step)
qed

lemma while_loop_returns:
  assumes "while_loop body st0 = Some r"
  shows "\<exists>st. visits body st0 st \<and> body st = Inl r"
proof (rule while_loop.raw_induct
    [where P = "\<lambda>b s y. \<exists>st. visits b s st \<and> b st = Inl y" and body = body and st = st0 and y = r])
  show "while_loop body st0 = Some r" by fact
next
  fix wl b s y
  assume IH: "\<And>b s y. wl b s = Some y \<Longrightarrow> \<exists>st. visits b s st \<and> b st = Inl y"
  assume eq: "(case b s of Inl r \<Rightarrow> Some r | Inr st' \<Rightarrow> wl b st') = Some y"
  show "\<exists>st. visits b s st \<and> b st = Inl y"
  proof (cases "b s")
    case (Inl r')
    with eq have "r' = y" by simp
    with Inl show ?thesis by (blast intro: visits_start)
  next
    case (Inr s1)
    with eq have "wl b s1 = Some y" by simp
    then obtain st' where "visits b s1 st'" "b st' = Inl y"
      using IH by blast
    with Inr show ?thesis by (blast intro: visits_first_step)
  qed
qed

lemma visits_invariant:
  assumes "visits body st0 st" and "I st0"
    and "\<And>s s'. I s \<Longrightarrow> body s = Inr s' \<Longrightarrow> I s'"
  shows "I st"
  using assms(1)
proof (induction rule: visits.induct)
  case visits_start
  show ?case by (rule assms(2))
next
  case (visits_step st st')
  then show ?case using assms(3) by blast
qed

lemma while_loop_terminates:
  fixes m :: "'st \<Rightarrow> nat"
  assumes "I st0"
    and "\<And>s s'. I s \<Longrightarrow> body s = Inr s' \<Longrightarrow> I s' \<and> m s' < m s"
  shows "\<exists>r. while_loop body st0 = Some r"
  using assms(1)
proof (induction "m st0" arbitrary: st0 rule: less_induct)
  case less
  show ?case
  proof (cases "body st0")
    case (Inl r)
    then show ?thesis by (auto simp: while_loop_Inl)
  next
    case (Inr st1)
    with less.prems assms(2) have "I st1" "m st1 < m st0" by blast+
    then have "\<exists>r. while_loop body st1 = Some r" by (rule less.hyps [rotated])
    with Inr show ?thesis by (simp add: while_loop_Inr)
  qed
qed

subsection \<open>The problem's mutable part\<close>

lemma snd_child_node:
  "snd (child_node n p a g) =
     snd (path_cost_of p (path_cost n) (state n) a (result p (state n) a) g)"
  by (simp add: child_node_def Let_def case_prod_beta)

lemma expand_actions_Cons:
  "fst (expand_actions n p (a # as) g) =
     fst (child_node n p a g) # fst (expand_actions n p as (snd (child_node n p a g)))"
  "snd (expand_actions n p (a # as) g) =
     snd (expand_actions n p as (snd (child_node n p a g)))"
  by (simp_all add: case_prod_beta)

lemma expand_unfold:
  "fst (expand n p g) =
     fst (expand_actions n p (fst (actions p (state n) g)) (snd (actions p (state n) g)))"
  "snd (expand n p g) =
     snd (expand_actions n p (fst (actions p (state n) g)) (snd (actions p (state n) g)))"
  by (simp_all add: expand_def case_prod_beta)

lemma expand_actions_preserves:
  "problem_preserves p I \<Longrightarrow> I g \<Longrightarrow> I (snd (expand_actions n p as g))"
proof (induction as arbitrary: g)
  case Nil
  then show ?case by simp
next
  case (Cons a as)
  have "I (snd (child_node n p a g))"
    unfolding snd_child_node using Cons.prems unfolding problem_preserves_def by blast
  with Cons.prems(1) have "I (snd (expand_actions n p as (snd (child_node n p a g))))"
    by (rule Cons.IH)
  then show ?case by (simp only: expand_actions_Cons)
qed

lemma expand_preserves:
  "problem_preserves p I \<Longrightarrow> I g \<Longrightarrow> I (snd (expand n p g))"
proof -
  assume p: "problem_preserves p I" and g: "I g"
  then have "I (snd (actions p (state n) g))" unfolding problem_preserves_def by blast
  with p have "I (snd (expand_actions n p (fst (actions p (state n) g)) (snd (actions p (state n) g))))"
    by (rule expand_actions_preserves)
  then show ?thesis by (simp only: expand_unfold)
qed

text \<open>The iterations, by cases.\<close>

lemma dfs_iteration_cases:
  "dfs_iteration p (frontier, explored, g) =
     (if frontier = [] then Inl (Count_only (card explored), g)
      else if goal_test p (state (last frontier))
        then Inl (Goal_and_count (last frontier) (card explored), g)
      else Inr (dfs_extend (fst (expand (last frontier) p g))
                  (insert (state (last frontier)) explored) (butlast frontier),
                insert (state (last frontier)) explored, snd (expand (last frontier) p g)))"
  by (simp add: dfs_iteration_def Let_def case_prod_beta)

lemma bfs_iteration_cases:
  "bfs_iteration p (frontier, explored, g) =
     (if frontier = [] then Inl (Count_only (card explored), g)
      else (case bfs_children p (fst (expand (hd frontier) p g))
                   (insert (state (hd frontier)) explored) (tl frontier) of
              Inl child \<Rightarrow> Inl (Goal_and_count child (card (insert (state (hd frontier)) explored)),
                              snd (expand (hd frontier) p g))
            | Inr frontier2 \<Rightarrow> Inr (frontier2, insert (state (hd frontier)) explored,
                                  snd (expand (hd frontier) p g))))"
  by (cases frontier) (simp_all add: bfs_iteration_def Let_def case_prod_beta split: sum.split)

lemma bf_iteration_cases:
  "bf_iteration p f (frontier, explored, g) =
     (if frontier = [] then Inl (Inr (Count_only (card explored)), g)
      else if goal_test p (state (fst (pq_pop frontier)))
        then Inl (Inr (Goal_and_count (fst (pq_pop frontier)) (card explored)), g)
      else (case bf_children f (fst (expand (fst (pq_pop frontier)) p g))
                   (insert (state (fst (pq_pop frontier))) explored) (snd (pq_pop frontier)) of
              Inl e \<Rightarrow> Inl (Inl e, snd (expand (fst (pq_pop frontier)) p g))
            | Inr frontier2 \<Rightarrow> Inr (frontier2, insert (state (fst (pq_pop frontier))) explored,
                                  snd (expand (fst (pq_pop frontier)) p g))))"
  by (simp add: bf_iteration_def Let_def case_prod_beta split: sum.split)

lemma state_root_node: "state (root_node s) = s"
  by (simp add: root_node_def Node_init_def)

lemma dfs_iteration_preserves:
  assumes "problem_preserves p I" and "I g"
  shows "dfs_iteration p (frontier, explored, g) = Inr (frontier', explored', g') \<Longrightarrow> I g'"
    and "dfs_iteration p (frontier, explored, g) = Inl (r, g') \<Longrightarrow> I g'"
  using assms expand_preserves [OF assms, of "last frontier"]
  by (auto simp: dfs_iteration_cases split: if_splits)

lemma bfs_iteration_preserves:
  assumes "problem_preserves p I" and "I g"
  shows "bfs_iteration p (frontier, explored, g) = Inr (frontier', explored', g') \<Longrightarrow> I g'"
    and "bfs_iteration p (frontier, explored, g) = Inl (r, g') \<Longrightarrow> I g'"
  using assms expand_preserves [OF assms, of "hd frontier"]
  by (auto simp: bfs_iteration_cases split: if_splits sum.splits)

lemma bf_iteration_preserves:
  assumes "problem_preserves p I" and "I g"
  shows "bf_iteration p f (frontier, explored, g) = Inr (frontier', explored', g') \<Longrightarrow> I g'"
    and "bf_iteration p f (frontier, explored, g) = Inl (r, g') \<Longrightarrow> I g'"
  using assms expand_preserves [OF assms, of "fst (pq_pop frontier)"]
  by (auto simp: bf_iteration_cases split: if_splits sum.splits)

lemma visits_preserves:
  assumes "visits body (fr0, ex0, g0) (fr, ex, g)" and "I g0"
    and "\<And>fr ex g fr' ex' g'. I g \<Longrightarrow> body (fr, ex, g) = Inr (fr', ex', g') \<Longrightarrow> I g'"
  shows "I g"
proof -
  have "(\<lambda>st. I (snd (snd st))) (fr, ex, g)"
    using assms(1)
  proof (rule visits_invariant)
    show "I (snd (snd (fr0, ex0, g0)))" using assms(2) by simp
  next
    fix s s' assume "I (snd (snd s))" "body s = Inr s'"
    then show "I (snd (snd s'))"
      using assms(3) [of "snd (snd s)" "fst s" "fst (snd s)" "fst s'" "fst (snd s')" "snd (snd s')"]
      by simp
  qed
  then show ?thesis by simp
qed

lemma depth_first_preserves:
  assumes "depth_first_graph_search p g = Some (r, g')" and "problem_preserves p I" and "I g"
  shows "I g'"
proof -
  from assms(1) obtain st where v: "visits (dfs_iteration p) ([root_node (initial p)], {}, g) st"
    and r: "dfs_iteration p st = Inl (r, g')"
    unfolding depth_first_graph_search_def by (blast dest: while_loop_returns)
  obtain fr ex g1 where st: "st = (fr, ex, g1)" by (cases st)
  have "I g1"
    using v [unfolded st] assms(3)
    by (rule visits_preserves) (rule dfs_iteration_preserves(1) [OF assms(2)])
  with r st show ?thesis using dfs_iteration_preserves(2) [OF assms(2)] by blast
qed

lemma breadth_first_preserves:
  assumes "breadth_first_graph_search p g = Some (r, g')" and "problem_preserves p I" and "I g"
  shows "I g'"
proof (cases "goal_test p (initial p)")
  case True
  with assms(1) have "g' = g"
    by (simp add: breadth_first_graph_search_def Let_def state_root_node)
  with assms(3) show ?thesis by simp
next
  case False
  with assms(1) have "while_loop (bfs_iteration p) ([root_node (initial p)], {}, g) = Some (r, g')"
    by (simp add: breadth_first_graph_search_def Let_def state_root_node)
  then obtain st where v: "visits (bfs_iteration p) ([root_node (initial p)], {}, g) st"
    and r: "bfs_iteration p st = Inl (r, g')"
    by (blast dest: while_loop_returns)
  obtain fr ex g1 where st: "st = (fr, ex, g1)" by (cases st)
  have "I g1"
    using v [unfolded st] assms(3)
    by (rule visits_preserves) (rule bfs_iteration_preserves(1) [OF assms(2)])
  with r st show ?thesis using bfs_iteration_preserves(2) [OF assms(2)] by blast
qed

lemma best_first_preserves:
  assumes "best_first_graph_search p f g = Some (r, g')" and "problem_preserves p I" and "I g"
  shows "I g'"
proof (cases "f (root_node (initial p))")
  case (Inl e)
  with assms(1) have "g' = g" by (simp add: best_first_graph_search_def Let_def)
  with assms(3) show ?thesis by simp
next
  case (Inr v0)
  with assms(1) have "while_loop (bf_iteration p f) ([(v0, root_node (initial p))], {}, g) = Some (r, g')"
    by (simp add: best_first_graph_search_def Let_def)
  then obtain st where v: "visits (bf_iteration p f) ([(v0, root_node (initial p))], {}, g) st"
    and r: "bf_iteration p f st = Inl (r, g')"
    by (blast dest: while_loop_returns)
  obtain fr ex g1 where st: "st = (fr, ex, g1)" by (cases st)
  have "I g1"
    using v [unfolded st] assms(3)
    by (rule visits_preserves) (rule bf_iteration_preserves(1) [OF assms(2)])
  with r st show ?thesis using bf_iteration_preserves(2) [OF assms(2)] by blast
qed

lemma snd_get:
  "snd (get g a b) =
     (if a \<in> fst ` set (graph_dict g) then g
      else g\<lparr>graph_dict := graph_dict g @ [(a, [])]\<rparr>)"
proof (cases "map_of (graph_dict g) a")
  case None
  then have "a \<notin> fst ` set (graph_dict g)" by (simp add: map_of_eq_None_iff)
  with None show ?thesis by (simp add: get_def setdefault_def Let_def split: option.split)
next
  case (Some l)
  then have "a \<in> fst ` set (graph_dict g)"
    using map_of_eq_None_iff [of "graph_dict g" a] by simp
  with Some show ?thesis by (simp add: get_def setdefault_def Let_def split: option.split)
qed

lemma only_empty_entries_added_refl: "only_empty_entries_added g g"
  unfolding only_empty_entries_added_def by (rule exI [of _ "[]"]) simp

lemma only_empty_entries_added_get:
  assumes "only_empty_entries_added g0 g"
  shows "only_empty_entries_added g0 (snd (get g a b))"
proof (cases "a \<in> fst ` set (graph_dict g)")
  case True
  with assms show ?thesis by (simp add: snd_get)
next
  case False
  from assms obtain ks where ks: "distinct ks" "set ks \<inter> fst ` set (graph_dict g0) = {}"
    "g = g0\<lparr>graph_dict := graph_dict g0 @ map (\<lambda>k. (k, [])) ks\<rparr>"
    unfolding only_empty_entries_added_def by blast
  have keys: "fst ` set (graph_dict g) = fst ` set (graph_dict g0) \<union> set ks"
    by (subst ks(3)) (auto simp: image_Un image_image)
  have "distinct (ks @ [a])" using ks(1) False keys by simp
  moreover have "set (ks @ [a]) \<inter> fst ` set (graph_dict g0) = {}"
    using ks(2) False keys by auto
  moreover have "snd (get g a b) =
      g0\<lparr>graph_dict := graph_dict g0 @ map (\<lambda>k. (k, [])) (ks @ [a])\<rparr>"
  proof -
    have upd: "g\<lparr>graph_dict := X\<rparr> = g0\<lparr>graph_dict := X\<rparr>" for X
      by (subst ks(3)) simp
    have "graph_dict g = graph_dict g0 @ map (\<lambda>k. (k, [])) ks"
      by (subst ks(3)) simp
    then show ?thesis using False by (simp add: snd_get upd)
  qed
  ultimately show ?thesis unfolding only_empty_entries_added_def by blast
qed

lemma GraphProblem_preserves:
  "problem_preserves (GraphProblem s gl) (only_empty_entries_added g0)"
proof -
  have a: "snd (GraphProblem_actions A g) = snd (get g A None)" for A and g :: "'a graph"
    by (simp add: GraphProblem_actions_def get_def Let_def case_prod_beta)
  have b: "snd (GraphProblem_path_cost c A act B g) = snd (get g A (Some B))"
    for c A act B and g :: "'a graph"
    by (simp add: GraphProblem_path_cost_def get_def Let_def case_prod_beta)
  show ?thesis
    unfolding problem_preserves_def
    by (simp add: GraphProblem_def a b only_empty_entries_added_get)
qed

lemma only_empty_entries_added_edges:
  assumes "only_empty_entries_added g g'"
  shows "edge_weight g' a b = edge_weight g a b" and "locations g' = locations g"
    and "directed g' = directed g"
proof -
  from assms obtain ks where ks: "distinct ks" "set ks \<inter> fst ` set (graph_dict g) = {}"
    "g' = g\<lparr>graph_dict := graph_dict g @ map (\<lambda>k. (k, [])) ks\<rparr>"
    unfolding only_empty_entries_added_def by blast
  show "locations g' = locations g" "directed g' = directed g" by (simp_all add: ks(3))
  have new: "map_of (map (\<lambda>k. (k, [])) ks) a = (if a \<in> set ks then Some [] else None)"
    by (induction ks) auto
  show "edge_weight g' a b = edge_weight g a b"
  proof (cases "map_of (graph_dict g) a")
    case None
    then show ?thesis
      by (simp add: edge_weight_def ks(3) map_of_append new map_add_def)
  next
    case (Some l)
    then show ?thesis
      by (simp add: edge_weight_def ks(3) map_of_append new map_add_def split: option.split)
  qed
qed

text \<open>
  Claim C8, as amended. A search over a graph problem (depth-first, breadth-first or
  best-first with any evaluation function, \<^verbatim>\<open>GraphProblem.h\<close> among them, which only
  reads the graph) leaves every edge and its weight and the \<^verbatim>\<open>locations\<close> as they were;
  \<^verbatim>\<open>graph_dict\<close> is what it was but for new keys that have an empty dict of links.
\<close>

theorem search_only_adds_empty_entries:
  "(depth_first_graph_search (GraphProblem s gl) g = Some (r1, g1)
      \<longrightarrow> only_empty_entries_added g g1 \<and> locations g1 = locations g
          \<and> (\<forall>a b. edge_weight g1 a b = edge_weight g a b))
   \<and> (breadth_first_graph_search (GraphProblem s gl) g = Some (r2, g2)
      \<longrightarrow> only_empty_entries_added g g2 \<and> locations g2 = locations g
          \<and> (\<forall>a b. edge_weight g2 a b = edge_weight g a b))
   \<and> (best_first_graph_search (GraphProblem s gl) f g = Some (r3, g3)
      \<longrightarrow> only_empty_entries_added g g3 \<and> locations g3 = locations g
          \<and> (\<forall>a b. edge_weight g3 a b = edge_weight g a b))"
proof (intro conjI impI allI)
  assume "depth_first_graph_search (GraphProblem s gl) g = Some (r1, g1)"
  then show a: "only_empty_entries_added g g1"
    using GraphProblem_preserves only_empty_entries_added_refl by (rule depth_first_preserves)
  show "locations g1 = locations g" using a by (rule only_empty_entries_added_edges)
  show "edge_weight g1 a b = edge_weight g a b" for a b
    using a by (rule only_empty_entries_added_edges)
next
  assume "breadth_first_graph_search (GraphProblem s gl) g = Some (r2, g2)"
  then show a: "only_empty_entries_added g g2"
    using GraphProblem_preserves only_empty_entries_added_refl by (rule breadth_first_preserves)
  show "locations g2 = locations g" using a by (rule only_empty_entries_added_edges)
  show "edge_weight g2 a b = edge_weight g a b" for a b
    using a by (rule only_empty_entries_added_edges)
next
  assume "best_first_graph_search (GraphProblem s gl) f g = Some (r3, g3)"
  then show a: "only_empty_entries_added g g3"
    using GraphProblem_preserves only_empty_entries_added_refl by (rule best_first_preserves)
  show "locations g3 = locations g" using a by (rule only_empty_entries_added_edges)
  show "edge_weight g3 a b = edge_weight g a b" for a b
    using a by (rule only_empty_entries_added_edges)
qed

lemma dfs_sink_run:
  "depth_first_graph_search (GraphProblem 1 (GoalState 9))
     \<lparr>graph_dict = [(1::int, [(2, 1)])], directed = True, locations = None\<rparr>
   = Some (Count_only 2,
       \<lparr>graph_dict = [(1, [(2, 1)]), (2, [])], directed = True, locations = None\<rparr>)"
  by code_simp

lemma bfs_sink_run:
  "breadth_first_graph_search (GraphProblem 1 (GoalState 9))
     \<lparr>graph_dict = [(1::int, [(2, 1)])], directed = True, locations = None\<rparr>
   = Some (Count_only 2,
       \<lparr>graph_dict = [(1, [(2, 1)]), (2, [])], directed = True, locations = None\<rparr>)"
  by code_simp

lemma best_first_sink_run:
  "best_first_graph_search (GraphProblem 1 (GoalState 9)) (\<lambda>n. Inr (Fin (int (depth n))))
     \<lparr>graph_dict = [(1::int, [(2, 1)])], directed = True, locations = None\<rparr>
   = Some (Inr (Count_only 2),
       \<lparr>graph_dict = [(1, [(2, 1)]), (2, [])], directed = True, locations = None\<rparr>)"
  by code_simp

text \<open>
  The claim C8 as stated fails: \<^verbatim>\<open>Graph.get\<close> calls \<^verbatim>\<open>setdefault\<close>, so expanding node 2,
  which has no outgoing edge, adds the key 2 to \<^verbatim>\<open>graph_dict\<close>; after the search the
  adjacency mapping is not the one before it.
\<close>

theorem search_adds_graph_dict_entry:
  "depth_first_graph_search (GraphProblem 1 (GoalState 9))
     \<lparr>graph_dict = [(1::int, [(2, 1)])], directed = True, locations = None\<rparr>
   = Some (Count_only 2,
       \<lparr>graph_dict = [(1, [(2, 1)]), (2, [])], directed = True, locations = None\<rparr>)
   \<and> graph_dict \<lparr>graph_dict = [(1::int, [(2, 1)]), (2, [])], directed = True, locations = None\<rparr>
       \<noteq> graph_dict \<lparr>graph_dict = [(1::int, [(2, 1)])], directed = True, locations = None\<rparr>"
  using dfs_sink_run by simp

theorem search_only_adds_empty_entries_witness:
  "only_empty_entries_added
     \<lparr>graph_dict = [(1::int, [(2, 1)])], directed = True, locations = None\<rparr>
     \<lparr>graph_dict = [(1, [(2, 1)]), (2, [])], directed = True, locations = None\<rparr>
   \<and> (\<forall>a b. edge_weight
         \<lparr>graph_dict = [(1::int, [(2, 1)]), (2, [])], directed = True, locations = None\<rparr> a b
       = edge_weight \<lparr>graph_dict = [(1::int, [(2, 1)])], directed = True, locations = None\<rparr> a b)"
  using search_only_adds_empty_entries
    [of 1 "GoalState 9" "\<lparr>graph_dict = [(1::int, [(2, 1)])], directed = True, locations = None\<rparr>"
        "Count_only 2"
        "\<lparr>graph_dict = [(1, [(2, 1)]), (2, [])], directed = True, locations = None\<rparr>"
        "Count_only 2"
        "\<lparr>graph_dict = [(1, [(2, 1)]), (2, [])], directed = True, locations = None\<rparr>"
        "\<lambda>n. Inr (Fin (int (depth n)))" "Inr (Count_only 2)"
        "\<lparr>graph_dict = [(1, [(2, 1)]), (2, [])], directed = True, locations = None\<rparr>"]
    dfs_sink_run bfs_sink_run best_first_sink_run
  by simp

text \<open>
  Claim C4. The searches return the pair of the goal node and the number of explored
  states, or that number alone when the frontier is empty. The case the code misses is
  \<^verbatim>\<open>breadth_first_graph_search\<close> on an initial state that passes the goal test: it
  returns the node alone, where \<^verbatim>\<open>depth_first_graph_search\<close> returns the pair on the
  same problem.
\<close>

theorem bfs_initial_goal_returns_node_alone:
  "breadth_first_graph_search (GraphProblem 1 (GoalState 1))
     \<lparr>graph_dict = [(1::int, [(2, 1)])], directed = True, locations = None\<rparr>
   = Some (Goal_only (root_node 1),
       \<lparr>graph_dict = [(1, [(2, 1)])], directed = True, locations = None\<rparr>)
   \<and> depth_first_graph_search (GraphProblem 1 (GoalState 1))
     \<lparr>graph_dict = [(1::int, [(2, 1)])], directed = True, locations = None\<rparr>
   = Some (Goal_and_count (root_node 1) 0,
       \<lparr>graph_dict = [(1, [(2, 1)])], directed = True, locations = None\<rparr>)"
  by code_simp

subsection \<open>No state twice in a frontier\<close>

lemma dfs_extend_distinct:
  "distinct (map state frontier) \<Longrightarrow> distinct (map state (dfs_extend children explored frontier))"
  by (induction children arbitrary: frontier) (simp_all add: in_frontier_def)

lemma dfs_extend_states:
  "state ` set (dfs_extend children explored frontier)
     \<subseteq> state ` set frontier \<union> (state ` set children - explored)"
proof (induction children arbitrary: frontier)
  case Nil
  show ?case by simp
next
  case (Cons c cs)
  show ?case using Cons.IH [of "if state c \<notin> explored \<and> \<not> in_frontier c frontier
        then frontier @ [c] else frontier"]
    by (auto split: if_splits)
qed

lemma bfs_children_distinct:
  "bfs_children p children explored frontier = Inr frontier2 \<Longrightarrow>
   distinct (map state frontier) \<Longrightarrow> distinct (map state frontier2)"
  by (induction children arbitrary: frontier) (auto simp: in_frontier_def split: if_splits)

lemma bfs_children_states:
  "bfs_children p children explored frontier = Inr frontier2 \<Longrightarrow>
   state ` set frontier2 \<subseteq> state ` set frontier \<union> (state ` set children - explored)"
proof (induction children arbitrary: frontier)
  case Nil
  then show ?case by auto
next
  case (Cons c cs)
  show ?case
  proof (cases "state c \<notin> explored \<and> \<not> in_frontier c frontier")
    case True
    with Cons.prems have "bfs_children p cs explored (frontier @ [c]) = Inr frontier2"
      by (simp split: if_splits)
    from Cons.IH [OF this] True show ?thesis by auto
  next
    case False
    with Cons.prems have "bfs_children p cs explored frontier = Inr frontier2"
      by (auto split: if_splits)
    from Cons.IH [OF this] show ?thesis by auto
  qed
qed

lemma dfs_frontier_distinct:
  assumes "dfs_frontier p g0 frontier"
  shows "distinct (map state frontier)"
proof -
  have inv: "distinct (map state fr)"
    if "visits (dfs_iteration p) ([root_node (initial p)], {}, g0) (fr, ex, g)" for fr ex g
  proof -
    have "(\<lambda>st. distinct (map state (fst st))) (fr, ex, g)"
      using that
    proof (rule visits_invariant)
      show "distinct (map state (fst ([root_node (initial p)], {}, g0)))" by simp
    next
      fix s s' :: "('b, 'c) node list \<times> 'b set \<times> 'a"
      assume d: "distinct (map state (fst s))" and step: "dfs_iteration p s = Inr s'"
      obtain fr ex g where s: "s = (fr, ex, g)" by (cases s)
      from d s have "distinct (map state (butlast fr))"
        by (simp add: map_butlast distinct_butlast)
      then show "distinct (map state (fst s'))"
        using step s by (auto simp: dfs_iteration_cases dfs_extend_distinct split: if_splits)
    qed
    then show ?thesis by simp
  qed
  from assms show ?thesis
  proof cases
    case (dfs_at_loop explored g)
    then show ?thesis by (rule inv)
  next
    case (dfs_popped fr explored g)
    from inv [OF dfs_popped(2)] show ?thesis
      unfolding dfs_popped(1) by (simp add: map_butlast distinct_butlast)
  next
    case (dfs_extending fr explored g k)
    from inv [OF dfs_extending(2)] have "distinct (map state (butlast fr))"
      by (simp add: map_butlast distinct_butlast)
    then show ?thesis unfolding dfs_extending(1) by (rule dfs_extend_distinct)
  qed
qed

lemma bfs_frontier_distinct:
  assumes "bfs_frontier p g0 frontier"
  shows "distinct (map state frontier)"
proof -
  have inv: "distinct (map state fr)"
    if "visits (bfs_iteration p) ([root_node (initial p)], {}, g0) (fr, ex, g)" for fr ex g
  proof -
    have "(\<lambda>st. distinct (map state (fst st))) (fr, ex, g)"
      using that
    proof (rule visits_invariant)
      show "distinct (map state (fst ([root_node (initial p)], {}, g0)))" by simp
    next
      fix s s' :: "('b, 'c) node list \<times> 'b set \<times> 'a"
      assume d: "distinct (map state (fst s))" and step: "bfs_iteration p s = Inr s'"
      obtain fr ex g where s: "s = (fr, ex, g)" by (cases s)
      from d s have "distinct (map state (tl fr))"
        by (simp add: map_tl distinct_tl)
      then show "distinct (map state (fst s'))"
        using step s
        by (auto simp: bfs_iteration_cases split: if_splits sum.splits
            dest: bfs_children_distinct)
    qed
    then show ?thesis by simp
  qed
  from assms show ?thesis
  proof cases
    case (bfs_at_loop explored g)
    then show ?thesis by (rule inv)
  next
    case (bfs_in_for fr explored g k)
    from inv [OF bfs_in_for(1)] have "distinct (map state (tl fr))"
      by (simp add: map_tl distinct_tl)
    with bfs_in_for(3) show ?thesis by (rule bfs_children_distinct)
  qed
qed

lemma pq_min_in: "pq_min m q \<in> set (m # q)"
  by (induction q arbitrary: m) (auto split: if_splits)

lemma pq_pop_parts:
  assumes "q \<noteq> []"
  shows "pq_min (hd q) (tl q) \<in> set q"
    and "fst (pq_pop q) = snd (pq_min (hd q) (tl q))"
    and "snd (pq_pop q) = remove1 (pq_min (hd q) (tl q)) q"
proof -
  from assms obtain x xs where q: "q = x # xs" by (cases q) auto
  show "pq_min (hd q) (tl q) \<in> set q" using pq_min_in [of x xs] by (simp add: q)
qed (simp_all add: pq_pop_def Let_def)

lemma remove1_distinct_states:
  assumes "distinct (map (state \<circ> snd) q)" and "m \<in> set q"
  shows "distinct (map (state \<circ> snd) (remove1 m q))"
    and "state (snd m) \<notin> (state \<circ> snd) ` set (remove1 m q)"
    and "(state \<circ> snd) ` set (remove1 m q) \<subseteq> (state \<circ> snd) ` set q"
proof -
  from assms(1) have d: "distinct q" and inj: "inj_on (state \<circ> snd) (set q)"
    by (simp_all add: distinct_map)
  have s: "set (remove1 m q) = set q - {m}" using d by simp
  show "distinct (map (state \<circ> snd) (remove1 m q))"
    using d inj by (simp add: distinct_map s inj_on_diff)
  show "state (snd m) \<notin> (state \<circ> snd) ` set (remove1 m q)"
  proof
    assume "state (snd m) \<in> (state \<circ> snd) ` set (remove1 m q)"
    then obtain x where "x \<in> set q - {m}" "state (snd m) = (state \<circ> snd) x"
      unfolding s by blast
    then have x: "x \<in> set q" "x \<noteq> m" "(state \<circ> snd) x = (state \<circ> snd) m" by simp_all
    from inj x(3) x(1) assms(2) have "x = m" by (rule inj_onD)
    with x(2) show False by simp
  qed
  show "(state \<circ> snd) ` set (remove1 m q) \<subseteq> (state \<circ> snd) ` set q"
    unfolding s by auto
qed

lemma pq_delitem_subset: "set (pq_delitem c q) \<subseteq> set q"
  by (induction q) (auto split: if_splits)

lemma pq_delitem_states:
  "(state \<circ> snd) ` set (pq_delitem c q) \<subseteq> (state \<circ> snd) ` set q"
  using pq_delitem_subset by (rule image_mono)

lemma pq_delitem_distinct:
  "distinct (map (state \<circ> snd) q) \<Longrightarrow>
   distinct (map (state \<circ> snd) (pq_delitem c q))
   \<and> state c \<notin> (state \<circ> snd) ` set (pq_delitem c q)"
proof (induction q)
  case Nil
  show ?case by simp
next
  case (Cons x q)
  obtain v n where x: "x = (v, n)" by (cases x)
  show ?case
  proof (cases "state n = state c")
    case True
    with Cons.prems x show ?thesis by (auto simp: image_iff)
  next
    case False
    have "(state \<circ> snd) ` set (pq_delitem c q) \<subseteq> (state \<circ> snd) ` set q"
      by (rule pq_delitem_states)
    with Cons False x show ?thesis by auto
  qed
qed

lemma pq_getitem_contains:
  "pq_contains c q \<Longrightarrow>
   \<exists>w n. pq_getitem c q = Inr w \<and> (w, n) \<in> set q \<and> state n = state c"
proof (induction q)
  case Nil
  then show ?case by (simp add: pq_contains_def)
next
  case (Cons x q)
  obtain v n where x: "x = (v, n)" by (cases x)
  show ?case
  proof (cases "state n = state c")
    case True
    with x show ?thesis by auto
  next
    case False
    with Cons.prems x have "pq_contains c q" by (auto simp: pq_contains_def)
    from Cons.IH [OF this] False x show ?thesis by auto
  qed
qed

lemma bf_child_ok:
  assumes "frontier_ok explored q" and "bf_child f explored c q = Inr q'"
  shows "frontier_ok explored q'"
proof (cases "state c \<notin> explored \<and> \<not> pq_contains c q")
  case True
  with assms(2) obtain v where "q' = q @ [(v, c)]"
    by (auto simp: bf_child_def split: sum.splits)
  with True assms(1) show ?thesis
    by (auto simp: frontier_ok_def pq_contains_def)
next
  case False
  show ?thesis
  proof (cases "pq_contains c q")
    case False
    with \<open>\<not> (state c \<notin> explored \<and> \<not> pq_contains c q)\<close> assms show ?thesis
      by (simp add: bf_child_def)
  next
    case True
    then have mem: "state c \<in> (state \<circ> snd) ` set q" by (simp add: pq_contains_def image_image)
    with assms(1) have notex: "state c \<notin> explored" by (auto simp: frontier_ok_def)
    from True False assms(2) consider "q' = q" | v where "q' = pq_delitem c q @ [(v, c)]"
      by (auto simp: bf_child_def split: sum.splits if_splits)
    then show ?thesis
    proof cases
      case 1
      with assms(1) show ?thesis by simp
    next
      case 2
      from assms(1) have "distinct (map (state \<circ> snd) (pq_delitem c q))"
        "state c \<notin> (state \<circ> snd) ` set (pq_delitem c q)"
        using pq_delitem_distinct [of q c] by (simp_all add: frontier_ok_def)
      moreover have "explored \<inter> (state \<circ> snd) ` set (pq_delitem c q) = {}"
        using assms(1) pq_delitem_states [of c q] by (auto simp: frontier_ok_def)
      ultimately show ?thesis using notex by (simp add: 2 frontier_ok_def)
    qed
  qed
qed

lemma bf_children_ok:
  "frontier_ok explored q \<Longrightarrow> bf_children f children explored q = Inr q' \<Longrightarrow>
   frontier_ok explored q'"
proof (induction children arbitrary: q)
  case Nil
  then show ?case by simp
next
  case (Cons c cs)
  from Cons.prems(2) obtain q1 where q1: "bf_child f explored c q = Inr q1"
    and rest: "bf_children f cs explored q1 = Inr q'"
    by (auto split: sum.splits)
  from Cons.prems(1) q1 have "frontier_ok explored q1" by (rule bf_child_ok)
  then show ?case using rest by (rule Cons.IH)
qed

lemma pq_pop_ok:
  assumes "frontier_ok explored q" and "q \<noteq> []"
  shows "frontier_ok (insert (state (fst (pq_pop q))) explored) (snd (pq_pop q))"
    and "frontier_ok explored (snd (pq_pop q))"
proof -
  let ?m = "pq_min (hd q) (tl q)"
  have m: "?m \<in> set q" using assms(2) by (rule pq_pop_parts)
  from assms(1) have d: "distinct (map (state \<circ> snd) q)" by (simp add: frontier_ok_def)
  note r = remove1_distinct_states [OF d m]
  have "explored \<inter> (state \<circ> snd) ` set (remove1 ?m q) = {}"
    using assms(1) r(3) by (auto simp: frontier_ok_def)
  then show "frontier_ok (insert (state (fst (pq_pop q))) explored) (snd (pq_pop q))"
    and "frontier_ok explored (snd (pq_pop q))"
    using r(1,2) by (simp_all add: frontier_ok_def pq_pop_parts [OF assms(2)])
qed

lemma bf_visits_ok:
  assumes "visits (bf_iteration p f) ([(v0, root_node (initial p))], {}, g0) (q, ex, g)"
  shows "frontier_ok ex q"
proof -
  have "(\<lambda>st. frontier_ok (fst (snd st)) (fst st)) (q, ex, g)"
    using assms
  proof (rule visits_invariant)
    show "frontier_ok (fst (snd ([(v0, root_node (initial p))], {}, g0)))
       (fst ([(v0, root_node (initial p))], {}, g0))"
      by (simp add: frontier_ok_def)
  next
    fix s s'
    assume ok: "frontier_ok (fst (snd s)) (fst s)" and step: "bf_iteration p f s = Inr s'"
    obtain q ex g where s: "s = (q, ex, g)" by (cases s)
    from step s have ne: "q \<noteq> []" by (auto simp: bf_iteration_cases split: if_splits)
    from ok s have "frontier_ok (insert (state (fst (pq_pop q))) ex) (snd (pq_pop q))"
      using pq_pop_ok(1) [OF _ ne] by simp
    then show "frontier_ok (fst (snd s')) (fst s')"
      using step s ne
      by (auto simp: bf_iteration_cases split: if_splits sum.splits dest: bf_children_ok)
  qed
  then show ?thesis by simp
qed

lemma bf_frontier_distinct:
  assumes "bf_frontier p f g0 q"
  shows "distinct (map (state \<circ> snd) q)"
  using assms
proof cases
  case (bf_at_loop v0 explored g)
  from bf_visits_ok [OF bf_at_loop(2)] show ?thesis by (simp add: frontier_ok_def)
next
  case (bf_popped v0 frontier explored g)
  from pq_pop_ok(2) [OF bf_visits_ok [OF bf_popped(3)] bf_popped(4)] show ?thesis
    by (simp add: frontier_ok_def bf_popped(1))
next
  case (bf_in_for v0 frontier explored g k)
  from pq_pop_ok(1) [OF bf_visits_ok [OF bf_in_for(2)] bf_in_for(3)] bf_in_for(5)
  have "frontier_ok (insert (state (fst (pq_pop frontier))) explored) q"
    by (rule bf_children_ok)
  then show ?thesis by (simp add: frontier_ok_def)
next
  case (bf_deleted v0 frontier explored g k frontier2 v w)
  from pq_pop_ok(1) [OF bf_visits_ok [OF bf_deleted(3)] bf_deleted(4)] bf_deleted(7)
  have "frontier_ok (insert (state (fst (pq_pop frontier))) explored) frontier2"
    by (rule bf_children_ok)
  then have "distinct (map (state \<circ> snd) frontier2)" by (simp add: frontier_ok_def)
  then show ?thesis unfolding bf_deleted(1) by (simp add: pq_delitem_distinct)
qed

lemma pq_delitem_set:
  assumes "distinct (map (state \<circ> snd) q)" and "(w, n) \<in> set q" and "state n = state c"
  shows "set (pq_delitem c q) = set q - {(w, n)}"
  using assms
proof (induction q)
  case Nil
  then show ?case by simp
next
  case (Cons x q)
  obtain v m where x: "x = (v, m)" by (cases x)
  show ?case
  proof (cases "state m = state c")
    case True
    have "(w, n) = (v, m)"
    proof (rule ccontr)
      assume "(w, n) \<noteq> (v, m)"
      with Cons.prems(2) x have "(w, n) \<in> set q" by auto
      then have "state n \<in> (state \<circ> snd) ` set q" by force
      with Cons.prems(1,3) True x show False by simp
    qed
    moreover have "(v, m) \<notin> set q"
    proof
      assume "(v, m) \<in> set q"
      then have "state m \<in> (state \<circ> snd) ` set q" by force
      with Cons.prems(1) x show False by simp
    qed
    ultimately show ?thesis using True x by auto
  next
    case False
    with Cons.prems x have in_q: "(w, n) \<in> set q" by auto
    from Cons.prems(1) have "distinct (map (state \<circ> snd) q)" by (simp add: comp_def)
    from Cons.IH [OF this in_q Cons.prems(3)] False x Cons.prems(3) show ?thesis by auto
  qed
qed

lemma frontier_entry_unique:
  assumes "distinct (map (state \<circ> snd) q)" and "(w, n) \<in> set q" and "e \<in> set q"
    and "state (snd e) = state n"
  shows "e = (w, n)"
proof -
  from assms(1) have "inj_on (state \<circ> snd) (set q)" by (simp add: distinct_map)
  moreover have "(state \<circ> snd) e = (state \<circ> snd) (w, n)" using assms(4) by simp
  ultimately show ?thesis using assms(3,2) by (rule inj_onD)
qed

lemma bf_children_snoc:
  "bf_children f (children @ [c]) explored q =
     (case bf_children f children explored q of
        Inl e \<Rightarrow> Inl e
      | Inr q' \<Rightarrow> bf_child f explored c q')"
proof (induction children arbitrary: q)
  case Nil
  show ?case by (simp split: sum.split)
next
  case (Cons x xs)
  show ?case
  proof (cases "bf_child f explored x q")
    case (Inl e)
    then show ?thesis by simp
  next
    case (Inr q1)
    with Cons.IH [of q1] show ?thesis by simp
  qed
qed

lemma bf_children_take_Suc:
  assumes "k < length children"
    and "bf_children f (take k children) explored q = Inr q'"
  shows "bf_children f (take (Suc k) children) explored q = bf_child f explored (children ! k) q'"
proof -
  from assms(1) have "take (Suc k) children = take k children @ [children ! k]"
    by (rule take_Suc_conv_app_nth)
  with assms(2) show ?thesis by (simp add: bf_children_snoc)
qed

lemma bf_for_step_ok:
  assumes "bf_for_step p f g0 explored frontier child after"
  shows "frontier_ok explored frontier \<and> after = bf_child f explored child frontier"
  using assms
proof cases
  case (bf_for_stepI v0 fr ex g k)
  from pq_pop_ok(1) [OF bf_visits_ok [OF bf_for_stepI(5)] bf_for_stepI(6)] bf_for_stepI(9)
  have a: "frontier_ok explored frontier" unfolding bf_for_stepI(1) by (rule bf_children_ok)
  from bf_for_stepI(8,9) have b: "after = bf_child f explored child frontier"
    unfolding bf_for_stepI(1,2,3) by (rule bf_children_take_Suc)
  from a b show ?thesis ..
qed

text \<open>
  Claim C2. At every step of the \<^verbatim>\<open>for\<close> loop of \<^verbatim>\<open>best_first_graph_search\<close>, with the
  explored set and the frontier the loop has reached before the child, and what the loop
  goes on with after it: a child whose state is neither explored nor in the frontier is
  enqueued under its \<open>f\<close>-value; when its state is in the frontier, in exactly one entry,
  that entry is deleted and the child enqueued if the \<open>f\<close>-value of the child is less
  than the queued one, and the frontier is left as it is otherwise; a child whose state
  is explored is not in the frontier, and the frontier is left as it is. (When \<open>f\<close>
  raises on the child, so does the search.)
\<close>

theorem best_first_child_handling:
  assumes "bf_for_step p f g0 explored frontier child after"
  shows
    "(state child \<notin> explored \<and> \<not> pq_contains child frontier \<longrightarrow>
        (\<forall>v. f child = Inr v \<longrightarrow> after = Inr (frontier @ [(v, child)])))
     \<and> (pq_contains child frontier \<longrightarrow>
        (\<forall>v. f child = Inr v \<longrightarrow>
           (\<exists>w n. (w, n) \<in> set frontier \<and> state n = state child
               \<and> (\<forall>e \<in> set frontier. state (snd e) = state child \<longrightarrow> e = (w, n))
               \<and> after =
                   (if cost_less v w then Inr (pq_delitem child frontier @ [(v, child)])
                    else Inr frontier)
               \<and> set (pq_delitem child frontier) = set frontier - {(w, n)})))
     \<and> (state child \<in> explored \<longrightarrow>
          \<not> pq_contains child frontier \<and> after = Inr frontier)"
proof -
  from bf_for_step_ok [OF assms] have ok: "frontier_ok explored frontier"
    and after: "after = bf_child f explored child frontier"
    by simp_all
  from ok have d: "distinct (map (state \<circ> snd) frontier)"
    and disj: "explored \<inter> (state \<circ> snd) ` set frontier = {}"
    by (simp_all add: frontier_ok_def)
  have contained: "state child \<notin> explored" if "pq_contains child frontier"
    using that disj by (auto simp: pq_contains_def image_image)
  show ?thesis
  proof (intro conjI impI allI)
    fix v assume "state child \<notin> explored \<and> \<not> pq_contains child frontier" "f child = Inr v"
    then show "after = Inr (frontier @ [(v, child)])"
      by (simp add: after bf_child_def)
  next
    fix v assume c: "pq_contains child frontier" and v: "f child = Inr v"
    from pq_getitem_contains [OF c] obtain w n where
      w: "pq_getitem child frontier = Inr w" "(w, n) \<in> set frontier" "state n = state child"
      by blast
    have "\<forall>e \<in> set frontier. state (snd e) = state child \<longrightarrow> e = (w, n)"
      using frontier_entry_unique [OF d w(2)] w(3) by simp
    moreover have "after =
        (if cost_less v w then Inr (pq_delitem child frontier @ [(v, child)]) else Inr frontier)"
      using c v w(1) by (simp add: after bf_child_def)
    moreover have "set (pq_delitem child frontier) = set frontier - {(w, n)}"
      using d w(2,3) by (rule pq_delitem_set)
    ultimately show "\<exists>w n. (w, n) \<in> set frontier \<and> state n = state child
               \<and> (\<forall>e \<in> set frontier. state (snd e) = state child \<longrightarrow> e = (w, n))
               \<and> after =
                   (if cost_less v w then Inr (pq_delitem child frontier @ [(v, child)])
                    else Inr frontier)
               \<and> set (pq_delitem child frontier) = set frontier - {(w, n)}"
      using w(2,3) by blast
  next
    assume e: "state child \<in> explored"
    then show nc: "\<not> pq_contains child frontier" using contained by blast
    from e nc show "after = Inr frontier"
      by (simp add: after bf_child_def)
  qed
qed

lemma ex_step1:
  "bf_iteration example_problem by_path_cost ([(Fin 0, root_node 1)], {}, example_graph)
   = Inr ([(Fin 5, example_node 2 (Some (root_node 1)) 5),
           (Fin 1, example_node 3 (Some (root_node 1)) 1)], {1}, example_graph)"
  by code_simp

lemma ex_pop:
  "pq_pop [(Fin 5, example_node 2 (Some (root_node 1)) 5),
           (Fin 1, example_node 3 (Some (root_node 1)) 1)]
   = (example_node 3 (Some (root_node 1)) 1, [(Fin 5, example_node 2 (Some (root_node 1)) 5)])"
  by code_simp

lemma ex_expand:
  "expand (example_node 3 (Some (root_node 1)) 1) example_problem example_graph
   = ([example_node 2 (Some (example_node 3 (Some (root_node 1)) 1)) 2], example_graph)"
  by code_simp

lemma ex_for_step:
  "bf_for_step example_problem by_path_cost example_graph {3, 1}
     [(Fin 5, example_node 2 (Some (root_node 1)) 5)]
     (example_node 2 (Some (example_node 3 (Some (root_node 1)) 1)) 2)
     (Inr [(Fin 2, example_node 2 (Some (example_node 3 (Some (root_node 1)) 1)) 2)])"
proof -
  let ?q = "[(Fin 5, example_node 2 (Some (root_node 1)) 5),
           (Fin 1, example_node 3 (Some (root_node 1)) 1)]"
  have r: "by_path_cost (root_node (initial example_problem)) = Inr (Fin 0)"
    by code_simp
  have i: "initial example_problem = 1" by code_simp
  have after: "bf_children by_path_cost
       [example_node 2 (Some (example_node 3 (Some (root_node 1)) 1)) 2] {3, 1}
       [(Fin 5, example_node 2 (Some (root_node 1)) 5)]
     = Inr [(Fin 2, example_node 2 (Some (example_node 3 (Some (root_node 1)) 1)) 2)]"
    by code_simp
  have "visits (bf_iteration example_problem by_path_cost)
      ([(Fin 0, root_node (initial example_problem))], {}, example_graph)
      (?q, {1}, example_graph)"
    unfolding i by (rule visits_step, rule visits_start, rule ex_step1)
  from bf_for_stepI [OF r this, of 0 "[(Fin 5, example_node 2 (Some (root_node 1)) 5)]"]
  have "bf_for_step example_problem by_path_cost example_graph {3, 1}
     [(Fin 5, example_node 2 (Some (root_node 1)) 5)]
     (example_node 2 (Some (example_node 3 (Some (root_node 1)) 1)) 2)
     (bf_children by_path_cost
       [example_node 2 (Some (example_node 3 (Some (root_node 1)) 1)) 2] {3, 1}
       [(Fin 5, example_node 2 (Some (root_node 1)) 5)])"
    by (simp add: ex_pop ex_expand del: bf_children.simps(2))
       (simp add: example_problem_def GraphProblem_def example_node_def Node_init_def
          del: bf_children.simps(2))
  then show ?thesis unfolding after .
qed

subsection \<open>The explored states are reachable\<close>

lemma expand_actions_states:
  "map state (fst (expand_actions n p as g)) = map (result p (state n)) as"
  by (induction as arbitrary: g) (simp_all add: case_prod_beta child_node_fields)

lemma expand_states:
  assumes "pure_on p I acts" and "I g"
  shows "map state (fst (expand n p g)) = map (result p (state n)) (acts (state n))"
    and "I (snd (expand n p g))"
proof -
  from assms have "fst (actions p (state n) g) = acts (state n)"
    by (simp add: pure_on_def)
  then show "map state (fst (expand n p g)) = map (result p (state n)) (acts (state n))"
    by (simp add: expand_unfold expand_actions_states)
  from assms(1) have "problem_preserves p I" by (simp add: pure_on_def)
  then show "I (snd (expand n p g))" using assms(2) by (rule expand_preserves)
qed

lemma reachable_initial: "initial p \<in> reachable_states p acts"
  by (simp add: reachable_states_def)

lemma reachable_step:
  "s \<in> reachable_states p acts \<Longrightarrow> a \<in> set (acts s) \<Longrightarrow>
   result p s a \<in> reachable_states p acts"
proof -
  let ?R = "{(s, s'). \<exists>a \<in> set (acts s). s' = result p s a}"
  assume "s \<in> reachable_states p acts" and a: "a \<in> set (acts s)"
  then have "(initial p, s) \<in> ?R\<^sup>*" by (simp add: reachable_states_def)
  moreover have "(s, result p s a) \<in> ?R" using a by blast
  ultimately have "(initial p, result p s a) \<in> ?R\<^sup>*" by (rule rtrancl_into_rtrancl)
  then show ?thesis by (simp add: reachable_states_def)
qed

lemma expand_reachable:
  assumes "pure_on p I acts" and "I g" and "state n \<in> reachable_states p acts"
  shows "state ` set (fst (expand n p g)) \<subseteq> reachable_states p acts"
proof -
  have "state ` set (fst (expand n p g)) = set (map state (fst (expand n p g)))" by simp
  also have "\<dots> = result p (state n) ` set (acts (state n))"
    by (simp add: expand_states(1) [OF assms(1,2)])
  also have "\<dots> \<subseteq> reachable_states p acts"
    using assms(3) by (auto intro: reachable_step)
  finally show ?thesis .
qed

lemma subset_via:
  assumes "X \<subseteq> A \<union> (B - E)" and "A \<subseteq> R" and "B \<subseteq> R"
  shows "X \<subseteq> R"
proof
  fix x assume "x \<in> X"
  with assms(1) have "x \<in> A \<or> x \<in> B" by blast
  with assms(2,3) show "x \<in> R" by blast
qed

lemma dfs_visits_explored_ok:
  assumes "pure_on p I acts" and "I g0"
    and "visits (dfs_iteration p) ([root_node (initial p)], {}, g0) (fr, ex, g)"
  shows "explored_ok p I acts (state ` set fr) ex g"
proof -
  let ?J = "\<lambda>st. explored_ok p I acts (state ` set (fst st)) (fst (snd st)) (snd (snd st))"
  have "?J (fr, ex, g)"
    using assms(3)
  proof (rule visits_invariant [where I = ?J])
    show "explored_ok p I acts (state ` set (fst ([root_node (initial p)], {}, g0)))
        (fst (snd ([root_node (initial p)], {}, g0))) (snd (snd ([root_node (initial p)], {}, g0)))"
      using assms(2) by (simp add: explored_ok_def state_root_node reachable_initial)
  next
    fix s s'
    assume ok: "explored_ok p I acts (state ` set (fst s)) (fst (snd s)) (snd (snd s))"
      and step: "dfs_iteration p s = Inr s'"
    obtain fr ex g where s: "s = (fr, ex, g)" by (cases s)
    from step s have ne: "fr \<noteq> []" by (auto simp: dfs_iteration_cases split: if_splits)
    let ?n = "last fr"
    from ok s have I: "I g" and fin: "finite ex" and ex: "ex \<subseteq> reachable_states p acts"
      and frs: "state ` set fr \<subseteq> reachable_states p acts"
      by (simp_all add: explored_ok_def)
    from ne have "?n \<in> set fr" by simp
    with frs have n: "state ?n \<in> reachable_states p acts" by blast
    have ch: "state ` set (fst (expand ?n p g)) \<subseteq> reachable_states p acts"
      using assms(1) I n by (rule expand_reachable)
    have "set (butlast fr) \<subseteq> set fr" by (auto dest: in_set_butlastD)
    with frs have "state ` set (butlast fr) \<subseteq> reachable_states p acts" by blast
    then have "state ` set (dfs_extend (fst (expand ?n p g)) (insert (state ?n) ex) (butlast fr))
        \<subseteq> reachable_states p acts"
      using ch by (rule subset_via [OF dfs_extend_states])
    moreover have "I (snd (expand ?n p g))" using assms(1) I by (rule expand_states)
    moreover from step s ne have "s' = (dfs_extend (fst (expand ?n p g)) (insert (state ?n) ex) (butlast fr),
        insert (state ?n) ex, snd (expand ?n p g))"
      by (simp add: dfs_iteration_cases split: if_splits)
    ultimately show "explored_ok p I acts (state ` set (fst s')) (fst (snd s')) (snd (snd s'))"
      using fin ex n by (simp add: explored_ok_def)
  qed
  then show ?thesis by simp
qed

lemma card_reachable:
  assumes "finite E" and "E \<subseteq> reachable_states p acts" and "k = card E"
  shows "\<exists>E. finite E \<and> E \<subseteq> reachable_states p acts \<and> k = card E
     \<and> (finite (reachable_states p acts) \<longrightarrow> k \<le> card (reachable_states p acts))"
  by (rule exI [of _ E]) (simp add: assms card_mono)

lemma dfs_explored_count:
  assumes "pure_on p I acts" and "I g0"
    and "depth_first_graph_search p g0 = Some (r, g')" and "explored_count r = Some k"
  shows "\<exists>E. finite E \<and> E \<subseteq> reachable_states p acts \<and> k = card E
     \<and> (finite (reachable_states p acts) \<longrightarrow> k \<le> card (reachable_states p acts))"
proof -
  from assms(3) obtain st where v: "visits (dfs_iteration p) ([root_node (initial p)], {}, g0) st"
    and r: "dfs_iteration p st = Inl (r, g')"
    unfolding depth_first_graph_search_def by (blast dest: while_loop_returns)
  obtain fr ex g where st: "st = (fr, ex, g)" by (cases st)
  from dfs_visits_explored_ok [OF assms(1,2) v [unfolded st]]
  have "finite ex" "ex \<subseteq> reachable_states p acts" by (simp_all add: explored_ok_def)
  moreover from r st assms(4) have "k = card ex"
    by (auto simp: dfs_iteration_cases split: if_splits)
  ultimately show ?thesis by (rule card_reachable)
qed

lemma bfs_visits_explored_ok:
  assumes "pure_on p I acts" and "I g0"
    and "visits (bfs_iteration p) ([root_node (initial p)], {}, g0) (fr, ex, g)"
  shows "explored_ok p I acts (state ` set fr) ex g"
proof -
  let ?J = "\<lambda>st. explored_ok p I acts (state ` set (fst st)) (fst (snd st)) (snd (snd st))"
  have "?J (fr, ex, g)"
    using assms(3)
  proof (rule visits_invariant [where I = ?J])
    show "?J ([root_node (initial p)], {}, g0)"
      using assms(2) by (simp add: explored_ok_def state_root_node reachable_initial)
  next
    fix s s'
    assume ok: "?J s" and step: "bfs_iteration p s = Inr s'"
    obtain fr ex g where s: "s = (fr, ex, g)" by (cases s)
    from step s have ne: "fr \<noteq> []" by (auto simp: bfs_iteration_cases split: if_splits)
    let ?n = "hd fr"
    from ok s have I: "I g" and fin: "finite ex" and ex: "ex \<subseteq> reachable_states p acts"
      and frs: "state ` set fr \<subseteq> reachable_states p acts"
      by (simp_all add: explored_ok_def)
    from ne have "?n \<in> set fr" by simp
    with frs have n: "state ?n \<in> reachable_states p acts" by blast
    have ch: "state ` set (fst (expand ?n p g)) \<subseteq> reachable_states p acts"
      using assms(1) I n by (rule expand_reachable)
    have "set (tl fr) \<subseteq> set fr" using ne by (cases fr) auto
    with frs have tl: "state ` set (tl fr) \<subseteq> reachable_states p acts" by blast
    from step s ne obtain fr2 where
      fr2: "bfs_children p (fst (expand ?n p g)) (insert (state ?n) ex) (tl fr) = Inr fr2"
      and s': "s' = (fr2, insert (state ?n) ex, snd (expand ?n p g))"
      by (auto simp: bfs_iteration_cases split: if_splits sum.splits)
    have "state ` set fr2 \<subseteq> reachable_states p acts"
      using tl ch by (rule subset_via [OF bfs_children_states [OF fr2]])
    moreover have "I (snd (expand ?n p g))" using assms(1) I by (rule expand_states)
    ultimately show "?J s'"
      using fin ex n by (simp add: explored_ok_def s')
  qed
  then show ?thesis by simp
qed

lemma bfs_explored_count:
  assumes "pure_on p I acts" and "I g0"
    and "breadth_first_graph_search p g0 = Some (r, g')" and "explored_count r = Some k"
  shows "\<exists>E. finite E \<and> E \<subseteq> reachable_states p acts \<and> k = card E
     \<and> (finite (reachable_states p acts) \<longrightarrow> k \<le> card (reachable_states p acts))"
proof (cases "goal_test p (initial p)")
  case True
  with assms(3) have "r = Goal_only (root_node (initial p))"
    by (simp add: breadth_first_graph_search_def Let_def state_root_node)
  with assms(4) show ?thesis by simp
next
  case False
  with assms(3) have "while_loop (bfs_iteration p) ([root_node (initial p)], {}, g0) = Some (r, g')"
    by (simp add: breadth_first_graph_search_def Let_def state_root_node)
  then obtain st where v: "visits (bfs_iteration p) ([root_node (initial p)], {}, g0) st"
    and r: "bfs_iteration p st = Inl (r, g')"
    by (blast dest: while_loop_returns)
  obtain fr ex g where st: "st = (fr, ex, g)" by (cases st)
  from bfs_visits_explored_ok [OF assms(1,2) v [unfolded st]]
  have fin: "finite ex" and ex: "ex \<subseteq> reachable_states p acts"
    and frs: "state ` set fr \<subseteq> reachable_states p acts"
    by (simp_all add: explored_ok_def)
  show ?thesis
  proof (cases "fr = []")
    case True
    with r st assms(4) have "k = card ex" by (auto simp: bfs_iteration_cases)
    with fin ex show ?thesis by (rule card_reachable)
  next
    case ne: False
    then have "hd fr \<in> set fr" by simp
    with frs have n: "state (hd fr) \<in> reachable_states p acts" by blast
    have "finite (insert (state (hd fr)) ex)" using fin by simp
    moreover have "insert (state (hd fr)) ex \<subseteq> reachable_states p acts" using ex n by simp
    moreover from r st ne assms(4) have "k = card (insert (state (hd fr)) ex)"
      by (auto simp: bfs_iteration_cases split: sum.splits)
    ultimately show ?thesis by (rule card_reachable)
  qed
qed

lemma bf_child_states:
  assumes "bf_child f explored c q = Inr q'"
    and "(state \<circ> snd) ` set q \<subseteq> R" and "state c \<in> R"
  shows "(state \<circ> snd) ` set q' \<subseteq> R"
proof -
  from assms(1) consider "q' = q" | v where "q' = q @ [(v, c)]"
    | v where "q' = pq_delitem c q @ [(v, c)]"
    by (auto simp: bf_child_def split: sum.splits if_splits)
  then show ?thesis
  proof cases
    case 1
    with assms(2) show ?thesis by simp
  next
    case 2
    with assms(2,3) show ?thesis by simp
  next
    case 3
    have "(state \<circ> snd) ` set (pq_delitem c q) \<subseteq> R"
      using pq_delitem_states assms(2) by (rule order_trans)
    with assms(3) 3 show ?thesis by simp
  qed
qed

lemma bf_children_states:
  "bf_children f children explored q = Inr q' \<Longrightarrow>
   (state \<circ> snd) ` set q \<subseteq> R \<Longrightarrow> state ` set children \<subseteq> R \<Longrightarrow>
   (state \<circ> snd) ` set q' \<subseteq> R"
proof (induction children arbitrary: q)
  case Nil
  then show ?case by simp
next
  case (Cons c cs)
  from Cons.prems(1) obtain q1 where q1: "bf_child f explored c q = Inr q1"
    and rest: "bf_children f cs explored q1 = Inr q'"
    by (auto split: sum.splits)
  from Cons.prems(3) have c: "state c \<in> R" and cs: "state ` set cs \<subseteq> R" by simp_all
  from q1 Cons.prems(2) c have "(state \<circ> snd) ` set q1 \<subseteq> R" by (rule bf_child_states)
  with rest show ?case using cs by (rule Cons.IH)
qed

lemma bf_visits_explored_ok:
  assumes "pure_on p I acts" and "I g0"
    and "visits (bf_iteration p f) ([(v0, root_node (initial p))], {}, g0) (q, ex, g)"
  shows "explored_ok p I acts ((state \<circ> snd) ` set q) ex g"
proof -
  let ?J = "\<lambda>st. explored_ok p I acts ((state \<circ> snd) ` set (fst st)) (fst (snd st)) (snd (snd st))"
  have "?J (q, ex, g)"
    using assms(3)
  proof (rule visits_invariant [where I = ?J])
    show "?J ([(v0, root_node (initial p))], {}, g0)"
      using assms(2) by (simp add: explored_ok_def state_root_node reachable_initial)
  next
    fix s s'
    assume ok: "?J s" and step: "bf_iteration p f s = Inr s'"
    obtain q ex g where s: "s = (q, ex, g)" by (cases s)
    from step s have ne: "q \<noteq> []" by (auto simp: bf_iteration_cases split: if_splits)
    let ?n = "fst (pq_pop q)"
    from ok s have I: "I g" and fin: "finite ex" and ex: "ex \<subseteq> reachable_states p acts"
      and qs: "(state \<circ> snd) ` set q \<subseteq> reachable_states p acts"
      by (simp_all add: explored_ok_def)
    have "pq_min (hd q) (tl q) \<in> set q" using ne by (rule pq_pop_parts)
    then have "state ?n \<in> (state \<circ> snd) ` set q"
      by (simp add: pq_pop_parts(2) [OF ne] image_iff) blast
    with qs have n: "state ?n \<in> reachable_states p acts" by blast
    have ch: "state ` set (fst (expand ?n p g)) \<subseteq> reachable_states p acts"
      using assms(1) I n by (rule expand_reachable)
    have "set (snd (pq_pop q)) \<subseteq> set q"
      by (simp add: pq_pop_parts(3) [OF ne] set_remove1_subset)
    then have "(state \<circ> snd) ` set (snd (pq_pop q)) \<subseteq> (state \<circ> snd) ` set q"
      by (rule image_mono)
    then have q1: "(state \<circ> snd) ` set (snd (pq_pop q)) \<subseteq> reachable_states p acts"
      using qs by (rule order_trans)
    from step s ne obtain q2 where
      q2: "bf_children f (fst (expand ?n p g)) (insert (state ?n) ex) (snd (pq_pop q)) = Inr q2"
      and s': "s' = (q2, insert (state ?n) ex, snd (expand ?n p g))"
      by (auto simp: bf_iteration_cases split: if_splits sum.splits)
    from q2 q1 ch have "(state \<circ> snd) ` set q2 \<subseteq> reachable_states p acts"
      by (rule bf_children_states)
    moreover have "I (snd (expand ?n p g))" using assms(1) I by (rule expand_states)
    ultimately show "?J s'"
      using fin ex n by (simp add: explored_ok_def s')
  qed
  then show ?thesis by simp
qed

lemma bf_explored_count:
  assumes "pure_on p I acts" and "I g0"
    and "best_first_graph_search p f g0 = Some (Inr r, g')" and "explored_count r = Some k"
  shows "\<exists>E. finite E \<and> E \<subseteq> reachable_states p acts \<and> k = card E
     \<and> (finite (reachable_states p acts) \<longrightarrow> k \<le> card (reachable_states p acts))"
proof (cases "f (root_node (initial p))")
  case (Inl e)
  with assms(3) show ?thesis by (simp add: best_first_graph_search_def Let_def)
next
  case (Inr v0)
  with assms(3) have "while_loop (bf_iteration p f) ([(v0, root_node (initial p))], {}, g0)
      = Some (Inr r, g')"
    by (simp add: best_first_graph_search_def Let_def)
  then obtain st where v: "visits (bf_iteration p f) ([(v0, root_node (initial p))], {}, g0) st"
    and r: "bf_iteration p f st = Inl (Inr r, g')"
    by (blast dest: while_loop_returns)
  obtain q ex g where st: "st = (q, ex, g)" by (cases st)
  from bf_visits_explored_ok [OF assms(1,2) v [unfolded st]]
  have "finite ex" "ex \<subseteq> reachable_states p acts" by (simp_all add: explored_ok_def)
  moreover from r st assms(4) have "k = card ex"
    by (auto simp: bf_iteration_cases split: if_splits sum.splits)
  ultimately show ?thesis by (rule card_reachable)
qed

lemma fst_GraphProblem_actions: "fst (GraphProblem_actions A g) = graph_actions g A"
  by (simp add: GraphProblem_actions_def graph_actions_def get_def setdefault_def Let_def
      split: option.split)

lemma only_empty_entries_added_actions:
  assumes "only_empty_entries_added g g'"
  shows "graph_actions g' a = graph_actions g a"
proof -
  from assms obtain ks where ks: "distinct ks" "set ks \<inter> fst ` set (graph_dict g) = {}"
    "g' = g\<lparr>graph_dict := graph_dict g @ map (\<lambda>k. (k, [])) ks\<rparr>"
    unfolding only_empty_entries_added_def by blast
  have new: "map_of (map (\<lambda>k. (k, [])) ks) a = (if a \<in> set ks then Some [] else None)"
    by (induction ks) auto
  show ?thesis
    by (cases "map_of (graph_dict g) a")
       (simp_all add: graph_actions_def ks(3) map_of_append new map_add_def)
qed

lemma GraphProblem_pure_on:
  "pure_on (GraphProblem s gl) (only_empty_entries_added g0) (graph_actions g0)"
  unfolding pure_on_def
proof (intro conjI allI impI)
  show "problem_preserves (GraphProblem s gl) (only_empty_entries_added g0)"
    by (rule GraphProblem_preserves)
next
  fix g :: "'a graph" and a
  assume "only_empty_entries_added g0 g"
  then have "graph_actions g a = graph_actions g0 a" by (rule only_empty_entries_added_actions)
  then show "fst (actions (GraphProblem s gl) a g) = graph_actions g0 a"
    by (simp add: GraphProblem_def fst_GraphProblem_actions)
qed

lemma graph_actions_targets: "set (graph_actions g s) \<subseteq> graph_targets g"
proof (cases "map_of (graph_dict g) s")
  case None
  then show ?thesis by (simp add: graph_actions_def)
next
  case (Some l)
  then have "(s, l) \<in> set (graph_dict g)" by (rule map_of_SomeD)
  then have "fst ` set l \<subseteq> graph_targets g" unfolding graph_targets_def by blast
  with Some show ?thesis by (simp add: graph_actions_def)
qed

lemma reachable_GraphProblem:
  "reachable_states (GraphProblem s gl) (graph_actions g) \<subseteq> insert s (graph_targets g)"
proof
  fix t assume "t \<in> reachable_states (GraphProblem s gl) (graph_actions g)"
  then have "(s, t) \<in> {(s, s'). \<exists>a \<in> set (graph_actions g s).
      s' = result (GraphProblem s gl) s a}\<^sup>*"
    by (simp add: reachable_states_def GraphProblem_def)
  then show "t \<in> insert s (graph_targets g)"
  proof (induction rule: rtrancl_induct)
    case base
    show ?case by simp
  next
    case (step y z)
    from step(2) obtain a where "a \<in> set (graph_actions g y)" "z = a"
      by (auto simp: GraphProblem_def GraphProblem_result_def)
    then show ?case using graph_actions_targets [of g y] by blast
  qed
qed

lemma finite_reachable_GraphProblem:
  "finite (reachable_states (GraphProblem s gl) (graph_actions g))"
proof -
  have "finite (graph_targets g)" unfolding graph_targets_def by auto
  then have "finite (insert s (graph_targets g))" by simp
  with reachable_GraphProblem show ?thesis by (rule finite_subset)
qed

text \<open>
  Claim C3. At every point of a depth-first, breadth-first or best-first search no state
  is in two entries of the frontier. When the problem has a fixed successor relation
  (through all the changes its methods make to its mutable part) and finitely many
  states reachable from the initial one, the number of explored states a search returns
  is at most the number of reachable states.
\<close>

theorem frontier_distinct_and_explored_bounded:
  fixes p :: "('g, 's, 'a) problem" and q :: "('h, 't::linorder, 'b) problem"
  shows
    "(dfs_frontier p g0 fr1 \<longrightarrow> distinct (map state fr1))
     \<and> (bfs_frontier p g0 fr2 \<longrightarrow> distinct (map state fr2))
     \<and> (bf_frontier q f h0 fr3 \<longrightarrow> distinct (map (state \<circ> snd) fr3))
     \<and> (pure_on p I acts \<and> I g0 \<and> finite (reachable_states p acts) \<longrightarrow>
          (\<forall>r g' k. depth_first_graph_search p g0 = Some (r, g') \<and> explored_count r = Some k
              \<longrightarrow> k \<le> card (reachable_states p acts))
          \<and> (\<forall>r g' k. breadth_first_graph_search p g0 = Some (r, g') \<and> explored_count r = Some k
              \<longrightarrow> k \<le> card (reachable_states p acts)))
     \<and> (pure_on q J acts' \<and> J h0 \<and> finite (reachable_states q acts') \<longrightarrow>
          (\<forall>r g' k. best_first_graph_search q f h0 = Some (Inr r, g') \<and> explored_count r = Some k
              \<longrightarrow> k \<le> card (reachable_states q acts')))"
proof (intro conjI impI allI)
  assume "dfs_frontier p g0 fr1" then show "distinct (map state fr1)"
    by (rule dfs_frontier_distinct)
next
  assume "bfs_frontier p g0 fr2" then show "distinct (map state fr2)"
    by (rule bfs_frontier_distinct)
next
  assume "bf_frontier q f h0 fr3" then show "distinct (map (state \<circ> snd) fr3)"
    by (rule bf_frontier_distinct)
next
  fix r g' k
  assume a: "pure_on p I acts \<and> I g0 \<and> finite (reachable_states p acts)"
    and b: "depth_first_graph_search p g0 = Some (r, g') \<and> explored_count r = Some k"
  from a b show "k \<le> card (reachable_states p acts)"
    using dfs_explored_count [of p I acts g0 r g' k] by blast
next
  fix r g' k
  assume a: "pure_on p I acts \<and> I g0 \<and> finite (reachable_states p acts)"
    and b: "breadth_first_graph_search p g0 = Some (r, g') \<and> explored_count r = Some k"
  from a b show "k \<le> card (reachable_states p acts)"
    using bfs_explored_count [of p I acts g0 r g' k] by blast
next
  fix r g' k
  assume a: "pure_on q J acts' \<and> J h0 \<and> finite (reachable_states q acts')"
    and b: "best_first_graph_search q f h0 = Some (Inr r, g') \<and> explored_count r = Some k"
  from a b show "k \<le> card (reachable_states q acts')"
    using bf_explored_count [of q J acts' h0 f r g' k] by blast
qed

lemma ex_initial: "initial example_problem = 1"
  by (simp add: example_problem_def GraphProblem_def)

lemma ex_dfs_run:
  "depth_first_graph_search example_problem example_graph
   = Some (Count_only 3,
       \<lparr>graph_dict = [(1, [(2, 5), (3, 1)]), (3, [(2, 1)]), (2, [])],
          directed = True, locations = None\<rparr>)"
  by code_simp

lemma ex_bfs_run:
  "breadth_first_graph_search example_problem example_graph
   = Some (Count_only 3,
       \<lparr>graph_dict = [(1, [(2, 5), (3, 1)]), (3, [(2, 1)]), (2, [])],
          directed = True, locations = None\<rparr>)"
  by code_simp

lemma ex_bf_run:
  "best_first_graph_search example_problem by_path_cost example_graph
   = Some (Inr (Count_only 3),
       \<lparr>graph_dict = [(1, [(2, 5), (3, 1)]), (3, [(2, 1)]), (2, [])],
          directed = True, locations = None\<rparr>)"
  by code_simp

lemma ex_pure:
  "pure_on example_problem (only_empty_entries_added example_graph)
     (graph_actions example_graph)"
  unfolding example_problem_def by (rule GraphProblem_pure_on)

lemma ex_finite: "finite (reachable_states example_problem (graph_actions example_graph))"
  unfolding example_problem_def by (rule finite_reachable_GraphProblem)

lemma ex_dfs_frontier: "dfs_frontier example_problem example_graph [root_node 1]"
  using dfs_at_loop [OF visits_start, of example_problem example_graph]
  by (simp add: ex_initial)

lemma ex_bfs_frontier: "bfs_frontier example_problem example_graph [root_node 1]"
  using bfs_at_loop [OF visits_start, of example_problem example_graph]
  by (simp add: ex_initial)

lemma ex_bf_frontier:
  "bf_frontier example_problem by_path_cost example_graph
     [(Fin 5, example_node 2 (Some (root_node 1)) 5),
      (Fin 1, example_node 3 (Some (root_node 1)) 1)]"
proof -
  have r: "by_path_cost (root_node (initial example_problem)) = Inr (Fin 0)"
    by code_simp
  have "visits (bf_iteration example_problem by_path_cost)
      ([(Fin 0, root_node (initial example_problem))], {}, example_graph)
      ([(Fin 5, example_node 2 (Some (root_node 1)) 5),
        (Fin 1, example_node 3 (Some (root_node 1)) 1)], {1}, example_graph)"
    unfolding ex_initial by (rule visits_step, rule visits_start, rule ex_step1)
  with r show ?thesis by (rule bf_at_loop)
qed

theorem frontier_distinct_and_explored_bounded_witness:
  "dfs_frontier example_problem example_graph [root_node 1]
   \<and> distinct (map state [root_node 1 :: (int, int) node])
   \<and> bfs_frontier example_problem example_graph [root_node 1]
   \<and> bf_frontier example_problem by_path_cost example_graph
        [(Fin 5, example_node 2 (Some (root_node 1)) 5),
         (Fin 1, example_node 3 (Some (root_node 1)) 1)]
   \<and> distinct (map (state \<circ> snd)
        [(Fin 5, example_node 2 (Some (root_node 1)) 5),
         (Fin 1, example_node 3 (Some (root_node 1)) 1)])
   \<and> explored_count (Count_only 3 :: (int, int) search_result) = Some 3
   \<and> 3 \<le> card (reachable_states example_problem (graph_actions example_graph))"
  using frontier_distinct_and_explored_bounded
    [of example_problem example_graph "[root_node 1]" "[root_node 1]"
        example_problem by_path_cost example_graph
        "[(Fin 5, example_node 2 (Some (root_node 1)) 5),
          (Fin 1, example_node 3 (Some (root_node 1)) 1)]"
        "only_empty_entries_added example_graph" "graph_actions example_graph"
        "only_empty_entries_added example_graph" "graph_actions example_graph"]
    ex_dfs_frontier ex_bfs_frontier ex_bf_frontier ex_pure ex_finite
    only_empty_entries_added_refl [of example_graph] ex_dfs_run ex_bfs_run ex_bf_run
  by simp

theorem best_first_child_handling_witness:
  "bf_for_step example_problem by_path_cost example_graph {3, 1}
     [(Fin 5, example_node 2 (Some (root_node 1)) 5)]
     (example_node 2 (Some (example_node 3 (Some (root_node 1)) 1)) 2)
     (Inr [(Fin 2, example_node 2 (Some (example_node 3 (Some (root_node 1)) 1)) 2)])
   \<and> pq_contains (example_node 2 (Some (example_node 3 (Some (root_node 1)) 1)) 2)
        [(Fin 5, example_node 2 (Some (root_node 1)) 5)]
   \<and> by_path_cost (example_node 2 (Some (example_node 3 (Some (root_node 1)) 1)) 2)
       = Inr (Fin 2)
   \<and> cost_less (Fin 2) (Fin 5)
   \<and> set (pq_delitem (example_node 2 (Some (example_node 3 (Some (root_node 1)) 1)) 2)
        [(Fin 5, example_node 2 (Some (root_node 1)) 5)])
       = set [(Fin 5, example_node 2 (Some (root_node 1)) 5)]
         - {(Fin 5, example_node 2 (Some (root_node 1)) 5)}"
  using best_first_child_handling [OF ex_for_step] ex_for_step
  by (auto simp: pq_contains_def by_path_cost_def example_node_def Node_init_def)

section \<open>The graph loader reads a file in the format\<close>

subsection \<open>Numerals\<close>




lemma decimal_nonempty: "decimal n \<noteq> []"
  by (subst decimal.simps) simp




lemma length_decimal: "n < 10 ^ k \<Longrightarrow> 0 < k \<Longrightarrow> length (decimal n) \<le> k"
proof (induction n arbitrary: k rule: decimal.induct)
  case (1 n)
  show ?case
  proof (cases "n < 10")
    case True
    with "1.prems" show ?thesis by (simp add: decimal.simps [of n])
  next
    case False
    obtain j where k: "k = Suc j" using "1.prems"(2) by (cases k) auto
    from False "1.prems"(1) k have "0 < j" by (cases j) auto
    moreover from "1.prems"(1) k have "n div 10 < 10 ^ j" by (simp add: less_mult_imp_div_less)
    ultimately have "length (decimal (n div 10)) \<le> j" using "1.IH" [OF False] by blast
    with False k show ?thesis by (simp add: decimal.simps [of n])
  qed
qed

subsection \<open>Stripping and splitting\<close>








lemma numeral_of_nonempty: "numeral_of i \<noteq> []"
  by (simp add: numeral_of_def decimal_nonempty)









lemma hd_numeral_append: "hd (numeral_of i @ s) = hd (numeral_of i)"
  by (simp add: numeral_of_nonempty)

lemma last_append_numeral: "last (s @ numeral_of i) = last (numeral_of i)"
  by (simp add: numeral_of_nonempty)


lemma not_header:
  assumes "s \<noteq> []" "hd s \<noteq> CHR ''N''" "hd s \<noteq> CHR ''E''" "hd s \<noteq> CHR ''O''" "hd s \<noteq> CHR ''D''"
  shows "s \<noteq> ''Nodes:''" "s \<noteq> ''Edges:''" "s \<noteq> ''Origin:''" "s \<noteq> ''Destinations:''"
  using assms by auto











subsection \<open>Building the graph\<close>











subsection \<open>The dicts the loader fills\<close>



lemma distinct_fold_update:
  "distinct (map fst m) \<Longrightarrow> distinct (map fst (fold (\<lambda>d. AList.update (fst d) (snd d)) kvs m))"
  by (induction kvs arbitrary: m) (simp_all add: distinct_update)






subsection \<open>Loading a file in the format\<close>









end
